theory Spec2Isabelle
  imports Complex_Main "HOL-Library.Multiset"
begin

section \<open>Student records\<close>

text \<open>
  The program is \<^verbatim>\<open>RefactorCode.cpp\<close>. Its structs become records. Values of the C++ type
  \<^verbatim>\<open>float\<close> are modelled by the real numbers they denote; the rounding of float
  arithmetic is not part of the model. The conversions between floats and text belong to
  the C++ library: the functions of the program that use them take them as parameters,
  and a later section gives them on the reals. The array \<^verbatim>\<open>float marks[5]\<close> is a tuple
  of five values.
\<close>

record AttendanceRecord =
  date :: string
  status :: string

type_synonym Marks = "real \<times> real \<times> real \<times> real \<times> real"

record Student =
  name :: string
  rollNo :: int
  studentClass :: string
  age :: int
  gender :: string
  marks :: Marks
  percentage :: real
  grade :: char
  attendanceRecords :: "AttendanceRecord list"
  gpa :: real

text \<open>
  The errors the modelled code can end with: the exceptions of the library calls it makes
  (none is caught anywhere in the program), and the read of a local variable that was
  never assigned.
\<close>

datatype error =
    OutOfRange
  | InvalidArgument
  | LengthError
  | IndeterminateRead

text \<open>
  \<^verbatim>\<open>Student s;\<close> with the default member initialisers. The members \<^verbatim>\<open>rollNo\<close> and
  \<^verbatim>\<open>age\<close> have no initialiser; every path of the program that stores the object assigns
  both first, so the value \<open>0\<close> given to them here is never observed.
\<close>

definition fresh_Student :: Student where
  "fresh_Student =
     \<lparr>name = [], rollNo = 0, studentClass = [], age = 0, gender = [],
      marks = (0, 0, 0, 0, 0), percentage = 0, grade = CHR ''F'',
      attendanceRecords = [], gpa = 0\<rparr>"

section \<open>Grade policy\<close>

text \<open>\<^verbatim>\<open>DefaultGradeStrategy::calculateGrade\<close> and \<^verbatim>\<open>DefaultGradeStrategy::calculateGPA\<close>.\<close>

definition strategy_calculateGrade :: "real \<Rightarrow> char" where
  "strategy_calculateGrade p =
     (if p \<ge> 90 then CHR ''A''
      else if p \<ge> 80 then CHR ''B''
      else if p \<ge> 70 then CHR ''C''
      else if p \<ge> 60 then CHR ''D''
      else CHR ''F'')"

definition strategy_calculateGPA :: "real \<Rightarrow> real" where
  "strategy_calculateGPA p =
     (if p \<ge> 90 then 4
      else if p \<ge> 80 then 3
      else if p \<ge> 70 then 2
      else if p \<ge> 60 then 1
      else 0)"

text \<open>
  \<^verbatim>\<open>GradeCalculator::calculateGrade\<close>: the loop adds the five marks to a total that
  starts at 0, in index order.
\<close>

definition marks_list :: "Marks \<Rightarrow> real list" where
  "marks_list m = (case m of (m0, m1, m2, m3, m4) \<Rightarrow> [m0, m1, m2, m3, m4])"

definition marks_total :: "Marks \<Rightarrow> real" where
  "marks_total m = foldl (+) 0 (marks_list m)"

definition calculateGrade :: "Student \<Rightarrow> Student" where
  "calculateGrade s =
     (let p = marks_total (marks s) / 5
      in s\<lparr>percentage := p,
            grade := strategy_calculateGrade p,
            gpa := strategy_calculateGPA p\<rparr>)"

text \<open>The consistency of the derived fields with the marks, as section 3 of the spec states it.\<close>

definition derived_consistent :: "Student \<Rightarrow> bool" where
  "derived_consistent s =
     (case marks s of (m0, m1, m2, m3, m4) \<Rightarrow>
        percentage s = (m0 + m1 + m2 + m3 + m4) / 5 \<and>
        grade s = strategy_calculateGrade (percentage s) \<and>
        gpa s = strategy_calculateGPA (percentage s))"

text \<open>\<^verbatim>\<open>calculateAttendancePercentage\<close> (the three copies in the source are the same).\<close>

definition calculateAttendancePercentage :: "Student \<Rightarrow> real" where
  "calculateAttendancePercentage s =
     (if attendanceRecords s = [] then 0
      else (real (length (filter (\<lambda>r. status r = ''Present'') (attendanceRecords s)))
              / real (length (attendanceRecords s))) * 100)"

section \<open>The library's sort\<close>

text \<open>
  \<^verbatim>\<open>sortStudents\<close> calls \<^verbatim>\<open>std::sort\<close> with the comparison \<^verbatim>\<open>a.rollNo < b.rollNo\<close>.
  The algorithm is the library's and not part of the repository. What the program does
  with records of the same roll number depends on it, so it is modelled here as the GNU
  C++ library implements it (\<^verbatim>\<open>bits/stl_algo.h\<close>, \<^verbatim>\<open>bits/stl_heap.h\<close>), function by
  function, at the program's comparison: an introsort, that is quicksort steps on ranges
  of more than 16 elements and a heap sort once the depth limit is used up, and an
  insertion sort after it. Each function has the name of the library's function, without
  \<^verbatim>\<open>std::__\<close>; \<open>by_roll\<close> is the lambda that \<^verbatim>\<open>sortStudents\<close> passes.

  A range \<^verbatim>\<open>[first, last)\<close> is the list of its elements and an iterator is an index into
  it. An element that was moved from is overwritten before it is read again; the model
  leaves the old value in its place.
\<close>

definition by_roll :: "Student \<Rightarrow> Student \<Rightarrow> bool" where
  "by_roll a b = (rollNo a < rollNo b)"

definition iter_swap :: "'a list \<Rightarrow> nat \<Rightarrow> nat \<Rightarrow> 'a list" where
  "iter_swap xs i j = xs[i := xs ! j, j := xs ! i]"

definition move_median_to_first :: "Student list \<Rightarrow> nat \<Rightarrow> nat \<Rightarrow> nat \<Rightarrow> nat \<Rightarrow> Student list" where
  "move_median_to_first xs result a b c =
     (if by_roll (xs ! a) (xs ! b)
      then (if by_roll (xs ! b) (xs ! c) then iter_swap xs result b
            else if by_roll (xs ! a) (xs ! c) then iter_swap xs result c
            else iter_swap xs result a)
      else if by_roll (xs ! a) (xs ! c) then iter_swap xs result a
      else if by_roll (xs ! b) (xs ! c) then iter_swap xs result c
      else iter_swap xs result b)"

text \<open>
  The two scans of \<^verbatim>\<open>std::__unguarded_partition\<close>. The pivot is the first element of the
  range. The scan upwards has no test for the end of the range, the median-of-three
  element is there to stop it: it is \<open>None\<close> when it leaves the range. The scan downwards
  stops at the pivot at the latest.
\<close>

function scan_first :: "Student list \<Rightarrow> nat \<Rightarrow> nat option" where
  "scan_first xs first =
     (if length xs \<le> first then None
      else if by_roll (xs ! first) (xs ! 0) then scan_first xs (Suc first)
      else Some first)"
  by pat_completeness auto
termination
  by (relation "measure (\<lambda>(xs, first). length xs - first)") auto

declare scan_first.simps [simp del]

function scan_last :: "Student list \<Rightarrow> nat \<Rightarrow> nat" where
  "scan_last xs last' = (if by_roll (xs ! 0) (xs ! last') then scan_last xs (last' - 1) else last')"
  by pat_completeness auto
termination
proof (relation "measure snd")
  show "wf (measure snd)" by simp
next
  fix xs :: "Student list" and last' :: nat
  assume "by_roll (xs ! 0) (xs ! last')"
  then have "last' \<noteq> 0" by (cases "last' = 0") (auto simp: by_roll_def)
  then show "((xs, last' - 1), (xs, last')) \<in> measure snd" by simp
qed

declare scan_last.simps [simp del]

lemma scan_first_bounds: "scan_first xs first = Some f \<Longrightarrow> first \<le> f \<and> f < length xs"
proof (induction xs first rule: scan_first.induct)
  case (1 xs first)
  from "1.prems" show ?case
    by (subst (asm) scan_first.simps) (auto split: if_splits dest!: "1.IH" [rotated 2])
qed

lemma scan_last_le: "scan_last xs last' \<le> last'"
proof (induction xs last' rule: scan_last.induct)
  case (1 xs last')
  show ?case
    by (subst scan_last.simps) (use 1 in \<open>auto intro: le_trans\<close>)
qed

function unguarded_partition :: "Student list \<Rightarrow> nat \<Rightarrow> nat \<Rightarrow> (Student list \<times> nat) option" where
  "unguarded_partition xs first last' =
     (case scan_first xs first of
        None \<Rightarrow> None
      | Some f \<Rightarrow>
          (let l = scan_last xs (last' - 1)
           in if \<not> f < l then Some (xs, f)
              else unguarded_partition (iter_swap xs f l) (Suc f) l))"
  by pat_completeness auto
termination
proof (relation "measure (\<lambda>(xs, first, last'). last' - first)")
  show "wf (measure (\<lambda>(xs, first, last'). last' - first))" by simp
next
  fix xs :: "Student list" and first last' f l :: nat
  assume "scan_first xs first = Some f" "l = scan_last xs (last' - 1)" "\<not> \<not> f < l"
  then have "first \<le> f" "l \<le> last' - 1" "f < l"
    using scan_first_bounds [of xs first f] scan_last_le [of xs "last' - 1"] by simp_all
  then show "((iter_swap xs f l, Suc f, l), (xs, first, last'))
      \<in> measure (\<lambda>(xs, first, last'). last' - first)"
    by simp
qed

declare unguarded_partition.simps [simp del]

definition unguarded_partition_pivot :: "Student list \<Rightarrow> (Student list \<times> nat) option" where
  "unguarded_partition_pivot xs =
     (let mid = length xs div 2
      in unguarded_partition (move_median_to_first xs 0 1 mid (length xs - 1)) 1 (length xs))"

text \<open>
  The heap functions, on a range that starts at index 0. \<^verbatim>\<open>std::__adjust_heap\<close> moves the
  hole down to the bottom along the larger children (the loop is \<open>sift_hole\<close>, where
  \<^verbatim>\<open>__secondChild\<close> equals \<^verbatim>\<open>__holeIndex\<close> at every test) and pushes the value up from
  there. The lengths are at least 1 at every call, so the differences are those of the
  signed C++ arithmetic.
\<close>

function push_heap :: "Student list \<Rightarrow> nat \<Rightarrow> nat \<Rightarrow> Student \<Rightarrow> Student list" where
  "push_heap xs holeIndex topIndex v =
     (let parent = (holeIndex - 1) div 2
      in if topIndex < holeIndex \<and> by_roll (xs ! parent) v
         then push_heap (xs[holeIndex := xs ! parent]) parent topIndex v
         else xs[holeIndex := v])"
  by pat_completeness auto
termination
  by (relation "measure (\<lambda>(xs, holeIndex, topIndex, v). holeIndex)") auto

declare push_heap.simps [simp del]

function sift_hole :: "Student list \<Rightarrow> nat \<Rightarrow> nat \<Rightarrow> Student list \<times> nat" where
  "sift_hole xs holeIndex len =
     (if holeIndex < (len - 1) div 2
      then (let secondChild = 2 * (holeIndex + 1);
                secondChild = (if by_roll (xs ! secondChild) (xs ! (secondChild - 1))
                               then secondChild - 1 else secondChild)
            in sift_hole (xs[holeIndex := xs ! secondChild]) secondChild len)
      else (xs, holeIndex))"
  by pat_completeness auto
termination
  by (relation "measure (\<lambda>(xs, holeIndex, len). len - holeIndex)") (auto simp: Let_def)

declare sift_hole.simps [simp del]

definition adjust_heap :: "Student list \<Rightarrow> nat \<Rightarrow> nat \<Rightarrow> Student \<Rightarrow> Student list" where
  "adjust_heap xs holeIndex len v =
     (let (ys, secondChild) = sift_hole xs holeIndex len;
          (zs, hole) =
             (if len mod 2 = 0 \<and> secondChild = (len - 2) div 2
              then (ys[secondChild := ys ! (2 * (secondChild + 1) - 1)], 2 * (secondChild + 1) - 1)
              else (ys, secondChild))
      in push_heap zs hole holeIndex v)"

fun make_heap_loop :: "Student list \<Rightarrow> nat \<Rightarrow> nat \<Rightarrow> Student list" where
  "make_heap_loop xs len 0 = adjust_heap xs 0 len (xs ! 0)"
| "make_heap_loop xs len (Suc parent) =
     make_heap_loop (adjust_heap xs (Suc parent) len (xs ! Suc parent)) len parent"

definition make_heap :: "Student list \<Rightarrow> Student list" where
  "make_heap xs = (if length xs < 2 then xs else make_heap_loop xs (length xs) ((length xs - 2) div 2))"

definition pop_heap :: "Student list \<Rightarrow> nat \<Rightarrow> nat \<Rightarrow> Student list" where
  "pop_heap xs last' result = adjust_heap (xs[result := xs ! 0]) 0 last' (xs ! result)"

fun sort_heap :: "Student list \<Rightarrow> nat \<Rightarrow> Student list" where
  "sort_heap xs last' = (if 1 < last' then sort_heap (pop_heap xs (last' - 1) (last' - 1)) (last' - 1) else xs)"

declare sort_heap.simps [simp del]

text \<open>
  \<^verbatim>\<open>std::__partial_sort(first, last, last)\<close>, as the introsort calls it: the loop of
  \<^verbatim>\<open>std::__heap_select\<close> over \<^verbatim>\<open>[middle, last)\<close> is empty.
\<close>

definition partial_sort :: "Student list \<Rightarrow> Student list" where
  "partial_sort xs = sort_heap (make_heap xs) (length xs)"

text \<open>
  \<^verbatim>\<open>std::__introsort_loop\<close>. The call on \<^verbatim>\<open>[cut, last)\<close> and the next round of the loop
  on \<^verbatim>\<open>[first, cut)\<close> work on the two parts of the range apart: the result is the two
  results side by side.
\<close>

fun introsort_loop :: "Student list \<Rightarrow> nat \<Rightarrow> Student list option" where
  "introsort_loop xs 0 = (if 16 < length xs then Some (partial_sort xs) else Some xs)"
| "introsort_loop xs (Suc depth_limit) =
     (if 16 < length xs
      then (case unguarded_partition_pivot xs of
              None \<Rightarrow> None
            | Some (ys, cut') \<Rightarrow>
                (case introsort_loop (drop cut' ys) depth_limit of
                   None \<Rightarrow> None
                 | Some upper \<Rightarrow>
                     (case introsort_loop (take cut' ys) depth_limit of
                        None \<Rightarrow> None
                      | Some lower \<Rightarrow> Some (lower @ upper))))
      else Some xs)"

text \<open>
  \<^verbatim>\<open>std::__unguarded_linear_insert\<close> has no test for the start of the vector: the result is
  \<open>None\<close> when it reads before it. In the loops the last argument counts the rounds left.
\<close>

primrec unguarded_linear_insert :: "Student list \<Rightarrow> nat \<Rightarrow> Student \<Rightarrow> Student list option" where
  "unguarded_linear_insert xs 0 v = None"
| "unguarded_linear_insert xs (Suc next) v =
     (if by_roll v (xs ! next) then unguarded_linear_insert (xs[Suc next := xs ! next]) next v
      else Some (xs[Suc next := v]))"

primrec insertion_loop :: "Student list \<Rightarrow> nat \<Rightarrow> nat \<Rightarrow> Student list option" where
  "insertion_loop xs i 0 = Some xs"
| "insertion_loop xs i (Suc n) =
     (if by_roll (xs ! i) (xs ! 0)
      then insertion_loop (xs ! i # take i xs @ drop (Suc i) xs) (Suc i) n
      else (case unguarded_linear_insert xs i (xs ! i) of
              None \<Rightarrow> None
            | Some ys \<Rightarrow> insertion_loop ys (Suc i) n))"

definition insertion_sort :: "Student list \<Rightarrow> nat \<Rightarrow> Student list option" where
  "insertion_sort xs last' = (if last' = 0 then Some xs else insertion_loop xs 1 (last' - 1))"

primrec unguarded_insertion_sort :: "Student list \<Rightarrow> nat \<Rightarrow> nat \<Rightarrow> Student list option" where
  "unguarded_insertion_sort xs i 0 = Some xs"
| "unguarded_insertion_sort xs i (Suc n) =
     (case unguarded_linear_insert xs i (xs ! i) of
        None \<Rightarrow> None
      | Some ys \<Rightarrow> unguarded_insertion_sort ys (Suc i) n)"

definition final_insertion_sort :: "Student list \<Rightarrow> Student list option" where
  "final_insertion_sort xs =
     (if 16 < length xs
      then (case insertion_sort xs 16 of
              None \<Rightarrow> None
            | Some ys \<Rightarrow> unguarded_insertion_sort ys 16 (length xs - 16))
      else insertion_sort xs (length xs))"

text \<open>\<^verbatim>\<open>std::__lg\<close>, the position of the highest bit, and \<^verbatim>\<open>std::sort\<close>.\<close>

fun lg :: "nat \<Rightarrow> nat" where
  "lg n = (if n < 2 then 0 else Suc (lg (n div 2)))"

declare lg.simps [simp del]

definition std_sort :: "Student list \<Rightarrow> Student list option" where
  "std_sort xs =
     (if xs = [] then Some xs
      else (case introsort_loop xs (2 * lg (length xs)) of
              None \<Rightarrow> None
            | Some ys \<Rightarrow> final_insertion_sort ys))"

text \<open>
  A binary heap in an array: the parent of an index, the indices below a node, a range
  whose elements are not larger than their parents from a node on, and the same with a
  hole, whose children are not larger than its parent.
\<close>

definition parent_of :: "nat \<Rightarrow> nat" where
  "parent_of c = (c - 1) div 2"

inductive below :: "nat \<Rightarrow> nat \<Rightarrow> bool" for topIndex :: nat where
  root: "below topIndex topIndex"
| child: "below topIndex (parent_of c) \<Longrightarrow> 0 < c \<Longrightarrow> below topIndex c"

definition heap_from :: "Student list \<Rightarrow> nat \<Rightarrow> nat \<Rightarrow> bool" where
  "heap_from xs topIndex len =
     (\<forall>c. 0 < c \<and> c < len \<and> topIndex \<le> parent_of c \<longrightarrow> rollNo (xs ! c) \<le> rollNo (xs ! parent_of c))"

definition hole_inv :: "Student list \<Rightarrow> nat \<Rightarrow> nat \<Rightarrow> nat \<Rightarrow> bool" where
  "hole_inv xs topIndex len h =
     (below topIndex h \<and> h < len \<and>
      (\<forall>c. 0 < c \<and> c < len \<and> topIndex \<le> parent_of c \<and> parent_of c \<noteq> h \<and> c \<noteq> h \<longrightarrow>
           rollNo (xs ! c) \<le> rollNo (xs ! parent_of c)) \<and>
      (h \<noteq> topIndex \<longrightarrow>
         (\<forall>c. 0 < c \<and> c < len \<and> parent_of c = h \<longrightarrow> rollNo (xs ! c) \<le> rollNo (xs ! parent_of h))))"

section \<open>Roster operations\<close>

text \<open>
  The roster is the vector \<^verbatim>\<open>students\<close>. The operations take the values the console
  prompts read and return the new roster with the message printed.
\<close>

datatype message =
    StudentAdded
  | StudentUpdated
  | StudentDeleted
  | StudentNotFound
  | MarksUpdated char
  | NoStudentsInClass string

text \<open>\<^verbatim>\<open>find_if\<close> over the roster by roll number: the index of the first match.\<close>

fun find_roll :: "int \<Rightarrow> Student list \<Rightarrow> nat option" where
  "find_roll roll [] = None"
| "find_roll roll (s # ss) =
     (if rollNo s = roll then Some 0 else map_option Suc (find_roll roll ss))"

definition addStudent ::
  "string \<Rightarrow> int \<Rightarrow> string \<Rightarrow> int \<Rightarrow> string \<Rightarrow> Student list \<Rightarrow> Student list \<times> message" where
  "addStudent nm roll cls ag gen students =
     (let s = fresh_Student\<lparr>name := nm, rollNo := roll, studentClass := cls,
                            age := ag, gender := gen\<rparr>
      in (students @ [calculateGrade s], StudentAdded))"

definition updateStudent ::
  "int \<Rightarrow> string \<Rightarrow> string \<Rightarrow> int \<Rightarrow> string \<Rightarrow> Student list \<Rightarrow> Student list \<times> message" where
  "updateStudent roll nm cls ag gen students =
     (case find_roll roll students of
        Some i \<Rightarrow>
          (let s = (students ! i)\<lparr>name := nm, studentClass := cls, age := ag, gender := gen\<rparr>
           in (students[i := calculateGrade s], StudentUpdated))
      | None \<Rightarrow> (students, StudentNotFound))"

definition enterMarks :: "int \<Rightarrow> Marks \<Rightarrow> Student list \<Rightarrow> Student list \<times> message" where
  "enterMarks roll ms students =
     (case find_roll roll students of
        Some i \<Rightarrow>
          (let s = calculateGrade ((students ! i)\<lparr>marks := ms\<rparr>)
           in (students[i := s], MarksUpdated (grade s)))
      | None \<Rightarrow> (students, StudentNotFound))"

text \<open>
  \<^verbatim>\<open>deleteStudent\<close>: \<^verbatim>\<open>remove_if\<close> moves the records that stay to the front, in
  their order, and returns the end of that range; the loop below is the algorithm, with
  the kept range as an accumulator. The vector is cut there when the range is shorter
  than the vector.
\<close>

fun remove_if :: "('a \<Rightarrow> bool) \<Rightarrow> 'a list \<Rightarrow> 'a list \<Rightarrow> 'a list" where
  "remove_if p kept [] = kept"
| "remove_if p kept (x # xs) = (if p x then remove_if p kept xs else remove_if p (kept @ [x]) xs)"

definition deleteStudent :: "int \<Rightarrow> Student list \<Rightarrow> Student list \<times> message" where
  "deleteStudent roll students =
     (let kept = remove_if (\<lambda>s. rollNo s = roll) [] students
      in if length kept \<noteq> length students then (kept, StudentDeleted)
         else (students, StudentNotFound))"

text \<open>
  \<^verbatim>\<open>sortStudents\<close>: the library's sort on the roster. The result is \<open>None\<close> if a scan
  of the library leaves the vector.
\<close>

definition sortStudents :: "Student list \<Rightarrow> Student list option" where
  "sortStudents students = std_sort students"

text \<open>Stability, as the spec words it: records with the same roll number keep their order.\<close>

definition keeps_order_of_ties :: "Student list \<Rightarrow> Student list \<Rightarrow> bool" where
  "keeps_order_of_ties students students' =
     (\<forall>k. filter (\<lambda>s. rollNo s = k) students' = filter (\<lambda>s. rollNo s = k) students)"

text \<open>
  \<^verbatim>\<open>findTopper\<close>: the scan keeps the largest percentage seen so far, starting at -1, and a
  pointer to its record, here the index of the record in the roster.
\<close>

fun topper_scan :: "string \<Rightarrow> Student list \<Rightarrow> nat \<Rightarrow> real \<Rightarrow> nat option \<Rightarrow> nat option" where
  "topper_scan cls [] i maxPercentage topper = topper"
| "topper_scan cls (s # ss) i maxPercentage topper =
     (if studentClass s = cls \<and> percentage s > maxPercentage
      then topper_scan cls ss (Suc i) (percentage s) (Some i)
      else topper_scan cls ss (Suc i) maxPercentage topper)"

definition findTopper :: "string \<Rightarrow> Student list \<Rightarrow> nat option" where
  "findTopper cls students = topper_scan cls students 0 (-1) None"

text \<open>
  \<^verbatim>\<open>showStatistics\<close>: the figures it prints. \<^verbatim>\<open>gradeCount[s.grade]++\<close> on a
  \<^verbatim>\<open>map<char, int>\<close> starts an absent key at 0.
\<close>

record Statistics =
  totalStudents :: nat
  averagePercentage :: real
  averageGPA4 :: real
  averageGPA5 :: real
  averageAttendance :: real
  gradeCount :: "char \<rightharpoonup> nat"

definition bump_grade :: "(char \<rightharpoonup> nat) \<Rightarrow> char \<Rightarrow> (char \<rightharpoonup> nat)" where
  "bump_grade m g = m(g \<mapsto> (case m g of None \<Rightarrow> 1 | Some c \<Rightarrow> Suc c))"

definition showStatistics :: "string \<Rightarrow> Student list \<Rightarrow> message + Statistics" where
  "showStatistics cls students =
     (let classStudents = filter (\<lambda>s. studentClass s = cls) students
      in if classStudents = [] then Inl (NoStudentsInClass cls)
         else
           (let totalPercentage = foldl (\<lambda>t s. t + percentage s) 0 classStudents;
                totalGPA = foldl (\<lambda>t s. t + gpa s) 0 classStudents;
                totalAttendance =
                  foldl (\<lambda>t s. t + calculateAttendancePercentage s) 0 classStudents;
                grades = foldl (\<lambda>m s. bump_grade m (grade s)) Map.empty classStudents;
                n = length classStudents
            in Inr \<lparr>totalStudents = n,
                    averagePercentage = totalPercentage / real n,
                    averageGPA4 = totalGPA / real n,
                    averageGPA5 = totalGPA / real n * 5 / 4,
                    averageAttendance = totalAttendance / real n,
                    gradeCount = grades\<rparr>))"

text \<open>
  \<^verbatim>\<open>viewMonthlyAttendance\<close>. \<^verbatim>\<open>std::string::substr(pos, n)\<close> throws
  \<^verbatim>\<open>std::out_of_range\<close> when \<open>pos\<close> is beyond the length of the string; nothing
  catches it, so the report ends there.
\<close>

definition substr :: "string \<Rightarrow> nat \<Rightarrow> nat \<Rightarrow> error + string" where
  "substr s pos n = (if pos > length s then Inl OutOfRange else Inr (take n (drop pos s)))"

definition month_key :: "string \<Rightarrow> error + string" where
  "month_key d =
     (case substr d 5 2 of
        Inl e \<Rightarrow> Inl e
      | Inr mm \<Rightarrow> (case substr d 0 4 of Inl e \<Rightarrow> Inl e | Inr yyyy \<Rightarrow> Inr (mm @ ''-'' @ yyyy)))"

fun month_count :: "string \<Rightarrow> AttendanceRecord list \<Rightarrow> nat \<Rightarrow> nat \<Rightarrow> error + (nat \<times> nat)" where
  "month_count monthYear [] present tot = Inr (present, tot)"
| "month_count monthYear (att # atts) present tot =
     (case month_key (date att) of
        Inl e \<Rightarrow> Inl e
      | Inr k \<Rightarrow>
          (if k = monthYear
           then month_count monthYear atts
                  (if status att = ''Present'' then Suc present else present) (Suc tot)
           else month_count monthYear atts present tot))"

text \<open>A printed row: roll number, name, present, absent, percentage.\<close>

type_synonym month_row = "int \<times> string \<times> nat \<times> nat \<times> real"

fun viewMonthlyAttendance :: "string \<Rightarrow> Student list \<Rightarrow> error + month_row list" where
  "viewMonthlyAttendance monthYear [] = Inr []"
| "viewMonthlyAttendance monthYear (s # ss) =
     (case month_count monthYear (attendanceRecords s) 0 0 of
        Inl e \<Rightarrow> Inl e
      | Inr (present, tot) \<Rightarrow>
          (case viewMonthlyAttendance monthYear ss of
             Inl e \<Rightarrow> Inl e
           | Inr rows \<Rightarrow>
               Inr (if tot > 0
                    then (rollNo s, name s, present, tot - present,
                          (real present / real tot) * 100) # rows
                    else rows)))"

section \<open>Text conversions\<close>

text \<open>
  Characters as the C locale classifies them (\<^verbatim>\<open>isspace\<close>, \<^verbatim>\<open>isdigit\<close>), and the decimal
  text of integers: what \<^verbatim>\<open>operator<<\<close> writes for an \<^verbatim>\<open>int\<close> or a \<^verbatim>\<open>size_t\<close>, and
  what \<^verbatim>\<open>strtol\<close> and the stream extraction read.
\<close>

definition isspace :: "char \<Rightarrow> bool" where
  "isspace c = (c = CHR '' '' \<or> c = CHR 0x09 \<or> c = CHR 0x0A \<or> c = CHR 0x0B \<or>
                c = CHR 0x0C \<or> c = CHR 0x0D)"

definition isdigit :: "char \<Rightarrow> bool" where
  "isdigit c = (48 \<le> (of_char c :: nat) \<and> (of_char c :: nat) \<le> 57)"

definition digit_val :: "char \<Rightarrow> nat" where
  "digit_val c = of_char c - 48"

definition digit_char :: "nat \<Rightarrow> char" where
  "digit_char d = char_of (48 + d)"

definition decimal_value :: "string \<Rightarrow> nat" where
  "decimal_value ds = foldl (\<lambda>a c. 10 * a + digit_val c) 0 ds"

fun put_nat :: "nat \<Rightarrow> string" where
  "put_nat n = (if n < 10 then [digit_char n] else put_nat (n div 10) @ [digit_char (n mod 10)])"

declare put_nat.simps [simp del]

definition put_int :: "int \<Rightarrow> string" where
  "put_int i = (if i < 0 then CHR ''-'' # put_nat (nat (- i)) else put_nat (nat i))"

text \<open>
  An integer at the start of a text: an optional sign and the digits that follow. The
  result is the value, if there is a digit, and the number of characters taken.
\<close>

definition scan_integer :: "string \<Rightarrow> int option \<times> nat" where
  "scan_integer cs =
     (let sgn = (case cs of [] \<Rightarrow> [] | c # _ \<Rightarrow> if c = CHR ''-'' \<or> c = CHR ''+'' then [c] else []);
          ds = takeWhile isdigit (drop (length sgn) cs)
      in if ds = [] then (None, length sgn)
         else (Some (if sgn = ''-'' then - int (decimal_value ds) else int (decimal_value ds)),
               length sgn + length ds))"

definition INT_MIN :: int where "INT_MIN = - 2147483648"
definition INT_MAX :: int where "INT_MAX = 2147483647"

text \<open>
  \<^verbatim>\<open>std::stoi\<close>: leading white space is skipped, characters after the number are ignored;
  \<^verbatim>\<open>std::invalid_argument\<close> when there is no number, \<^verbatim>\<open>std::out_of_range\<close> when
  it does not fit an \<^verbatim>\<open>int\<close>.
\<close>

definition stoi :: "string \<Rightarrow> error + int" where
  "stoi str =
     (case fst (scan_integer (dropWhile isspace str)) of
        None \<Rightarrow> Inl InvalidArgument
      | Some v \<Rightarrow> if v < INT_MIN \<or> INT_MAX < v then Inl OutOfRange else Inr v)"

section \<open>CSV import\<close>

text \<open>
  A \<^verbatim>\<open>stringstream\<close> over one line: the characters not yet read, and whether the stream
  is still good. \<^verbatim>\<open>getline(ss, str, ',')\<close> on a good stream replaces \<open>str\<close> by the
  characters up to the next comma, which it consumes; when it reaches the end of the line
  instead, the stream is no longer good. On a stream that is not good it leaves \<open>str\<close>
  as it was.
\<close>

type_synonym sstream = "string \<times> bool"

definition getline_delim :: "char \<Rightarrow> string \<Rightarrow> sstream \<Rightarrow> string \<times> sstream" where
  "getline_delim d str ss =
     (case ss of (buf, good) \<Rightarrow>
        if \<not> good then (str, (buf, False))
        else if d \<in> set buf
          then (takeWhile (\<lambda>c. c \<noteq> d) buf, (tl (dropWhile (\<lambda>c. c \<noteq> d) buf), True))
          else (buf, ([], False)))"

text \<open>
  The body of the import loop up to \<^verbatim>\<open>s.gpa = stof(temp)\<close>: the record built from one
  line. \<^verbatim>\<open>std::stof\<close> is the parameter \<open>stof\<close>. \<^verbatim>\<open>temp[0]\<close> of an empty string is the
  null character.
\<close>

definition import_row :: "(string \<Rightarrow> error + real) \<Rightarrow> string \<Rightarrow> error + Student" where
  "import_row stof line =
     (let (temp1, ss1) = getline_delim CHR '','' [] (line, True)
      in case stoi temp1 of
           Inl e \<Rightarrow> Inl e
         | Inr roll \<Rightarrow>
             (let (nm, ss2) = getline_delim CHR '','' [] ss1;
                  (cls, ss3) = getline_delim CHR '','' [] ss2;
                  (temp4, ss4) = getline_delim CHR '','' temp1 ss3
              in case stoi temp4 of
                   Inl e \<Rightarrow> Inl e
                 | Inr ag \<Rightarrow>
                     (let (gen, ss5) = getline_delim CHR '','' [] ss4;
                          (temp6, ss6) = getline_delim CHR '','' temp4 ss5
                      in case stof temp6 of
                           Inl e \<Rightarrow> Inl e
                         | Inr pct \<Rightarrow>
                             (let (temp7, ss7) = getline_delim CHR '','' temp6 ss6;
                                  g = (case temp7 of [] \<Rightarrow> CHR 0x00 | c # _ \<Rightarrow> c);
                                  (temp8, ss8) = getline_delim CHR '','' temp7 ss7
                              in case stof temp8 of
                                   Inl e \<Rightarrow> Inl e
                                 | Inr gp \<Rightarrow>
                                     Inr (fresh_Student\<lparr>rollNo := roll, name := nm,
                                            studentClass := cls, age := ag, gender := gen,
                                            percentage := pct, grade := g, gpa := gp\<rparr>)))))"

text \<open>
  The lines \<^verbatim>\<open>getline(file, line)\<close> yields, one after the other, until it fails at the end
  of the file.
\<close>

fun getlines :: "string \<Rightarrow> string \<Rightarrow> string list" where
  "getlines line [] = (if line = [] then [] else [line])"
| "getlines line (c # cs) =
     (if c = CHR 0x0A then line # getlines [] cs else getlines (line @ [c]) cs)"

text \<open>
  The loop of \<^verbatim>\<open>importFromCSV\<close>. The last two statements of its body are
  \<^verbatim>\<open>students.push_back(s); gradeCalc->calculateGrade(s);\<close> in this order: the vector
  receives a copy of \<open>s\<close>, then the grade is computed on the local \<open>s\<close>, which the
  iteration drops. An exception of \<^verbatim>\<open>stoi\<close> or \<^verbatim>\<open>stof\<close> is not caught and ends the
  program.
\<close>

fun import_loop ::
  "(string \<Rightarrow> error + real) \<Rightarrow> string list \<Rightarrow> Student list \<Rightarrow> error + Student list" where
  "import_loop stof [] students = Inr students"
| "import_loop stof (line # lines) students =
     (case import_row stof line of
        Inl e \<Rightarrow> Inl e
      | Inr s \<Rightarrow>
          (let students1 = students @ [s];
               s1 = calculateGrade s
           in import_loop stof lines students1))"

text \<open>
  \<^verbatim>\<open>importFromCSV\<close>: the file is \<open>None\<close> when it cannot be opened; its first line, the
  header, is skipped.
\<close>

definition importFromCSV ::
  "(string \<Rightarrow> error + real) \<Rightarrow> string option \<Rightarrow> Student list \<Rightarrow> error + Student list" where
  "importFromCSV stof file students =
     (case file of
        None \<Rightarrow> Inr students
      | Some content \<Rightarrow> import_loop stof (drop 1 (getlines [] content)) students)"

section \<open>The native store\<close>

text \<open>
  The input stream over the file: the characters not yet read and the stream's
  \<^verbatim>\<open>failbit\<close>. The program never clears the bit, and a stream at the end of its file
  has no character left, so that every later extraction fails on it as it does on a
  stream whose \<^verbatim>\<open>eofbit\<close> is set.
\<close>

type_synonym istream = "string \<times> bool"

text \<open>
  An extraction \<^verbatim>\<open>file >> x\<close> first skips white space (the sentry). When the stream has
  already failed, or the file ends before a character of the field, the extraction fails
  and leaves \<open>x\<close> as it was: the scanners below return \<open>None\<close> for the value. Otherwise
  they return the value the extraction assigns. For a number that cannot be read that
  value is 0, and for an integer that does not fit an \<^verbatim>\<open>int\<close> it is the nearest bound
  (C++11); both set the \<^verbatim>\<open>failbit\<close>.
\<close>

definition assigned :: "'a \<Rightarrow> 'a option \<times> istream \<Rightarrow> 'a \<times> istream" where
  "assigned cur r = (case r of (None, st) \<Rightarrow> (cur, st) | (Some v, st) \<Rightarrow> (v, st))"

definition scan_string :: "istream \<Rightarrow> string option \<times> istream" where
  "scan_string st =
     (case st of (buf, failbit) \<Rightarrow>
        if failbit then (None, (buf, True))
        else (let r = dropWhile isspace buf
              in if r = [] then (None, ([], True))
                 else (Some (takeWhile (\<lambda>c. \<not> isspace c) r),
                       (dropWhile (\<lambda>c. \<not> isspace c) r, False))))"

definition scan_int :: "istream \<Rightarrow> int option \<times> istream" where
  "scan_int st =
     (case st of (buf, failbit) \<Rightarrow>
        if failbit then (None, (buf, True))
        else (let r = dropWhile isspace buf
              in if r = [] then (None, ([], True))
                 else (case scan_integer r of
                         (None, n) \<Rightarrow> (Some 0, (drop n r, True))
                       | (Some v, n) \<Rightarrow>
                           if v < INT_MIN then (Some INT_MIN, (drop n r, True))
                           else if INT_MAX < v then (Some INT_MAX, (drop n r, True))
                           else (Some v, (drop n r, False)))))"

text \<open>
  The extraction of a \<^verbatim>\<open>float\<close>. The conversion is the library's \<^verbatim>\<open>num_get\<close>, the
  parameter \<open>get_float\<close>: from the characters at the read position it gives the value
  and the number of characters it took, or \<open>None\<close> when they are no number.
\<close>

definition scan_float :: "(string \<Rightarrow> (real \<times> nat) option) \<Rightarrow> istream \<Rightarrow> real option \<times> istream" where
  "scan_float get_float st =
     (case st of (buf, failbit) \<Rightarrow>
        if failbit then (None, (buf, True))
        else (let r = dropWhile isspace buf
              in if r = [] then (None, ([], True))
                 else (case get_float r of
                         None \<Rightarrow> (Some 0, (r, True))
                       | Some (v, n) \<Rightarrow> (Some v, (drop n r, False)))))"

text \<open>
  The condition of the loop in \<^verbatim>\<open>FileHandler::loadFromFile\<close>: ten extractions into the
  members of \<open>s\<close>.
\<close>

definition read_head ::
  "(string \<Rightarrow> (real \<times> nat) option) \<Rightarrow> Student \<Rightarrow> istream \<Rightarrow> Student \<times> istream" where
  "read_head get_float s st0 =
     (case marks s of (m0, m1, m2, m3, m4) \<Rightarrow>
        (let (nm, st1) = assigned (name s) (scan_string st0);
             (roll, st2) = assigned (rollNo s) (scan_int st1);
             (cls, st3) = assigned (studentClass s) (scan_string st2);
             (ag, st4) = assigned (age s) (scan_int st3);
             (gen, st5) = assigned (gender s) (scan_string st4);
             (k0, st6) = assigned m0 (scan_float get_float st5);
             (k1, st7) = assigned m1 (scan_float get_float st6);
             (k2, st8) = assigned m2 (scan_float get_float st7);
             (k3, st9) = assigned m3 (scan_float get_float st8);
             (k4, st10) = assigned m4 (scan_float get_float st9)
         in (s\<lparr>name := nm, rollNo := roll, studentClass := cls, age := ag, gender := gen,
               marks := (k0, k1, k2, k3, k4)\<rparr>, st10)))"

text \<open>
  The body of the loop. \<^verbatim>\<open>int numRecords;\<close> has no initialiser, so when the extraction
  leaves it as it was, \<^verbatim>\<open>resize(numRecords)\<close> reads a value that was never assigned. A
  negative count converts to a \<^verbatim>\<open>size_t\<close> beyond \<^verbatim>\<open>max_size()\<close>, and \<^verbatim>\<open>resize\<close> throws
  \<^verbatim>\<open>std::length_error\<close>. \<^verbatim>\<open>resize\<close> keeps the entries the vector already has; the
  running out of memory on a large count is not modelled. Nothing in the body tests the
  stream.
\<close>

definition resize :: "AttendanceRecord list \<Rightarrow> nat \<Rightarrow> AttendanceRecord list" where
  "resize v n = take n v @ replicate (n - length v) \<lparr>date = [], status = []\<rparr>"

fun read_entries :: "AttendanceRecord list \<Rightarrow> istream \<Rightarrow> AttendanceRecord list \<times> istream" where
  "read_entries [] st = ([], st)"
| "read_entries (a # rs) st =
     (let (d, st1) = assigned (date a) (scan_string st);
          (t, st2) = assigned (status a) (scan_string st1);
          (rs', st3) = read_entries rs st2
      in (\<lparr>date = d, status = t\<rparr> # rs', st3))"

definition read_tail ::
  "(string \<Rightarrow> (real \<times> nat) option) \<Rightarrow> Student \<Rightarrow> istream \<Rightarrow> error + Student \<times> istream" where
  "read_tail get_float s st =
     (case scan_int st of
        (None, st1) \<Rightarrow> Inl IndeterminateRead
      | (Some numRecords, st1) \<Rightarrow>
          if numRecords < 0 then Inl LengthError
          else (let (atts, st2) = read_entries (resize (attendanceRecords s) (nat numRecords)) st1;
                    (g, st3) = assigned (gpa s) (scan_float get_float st2)
                in Inr (s\<lparr>attendanceRecords := atts, gpa := g\<rparr>, st3)))"

text \<open>
  The loop ends: an extraction never gives characters back, and a successful extraction
  of the name takes at least one.
\<close>

lemma scan_string_len: "length (fst (snd (scan_string st))) \<le> length (fst st)"
  by (auto simp: scan_string_def Let_def split: prod.splits
      intro: order_trans [OF length_dropWhile_le] order_trans [OF length_dropWhile_le length_dropWhile_le])

lemma scan_string_fail: "snd st \<Longrightarrow> snd (snd (scan_string st))"
  by (auto simp: scan_string_def split: prod.splits)

lemma dropWhile_not_lt:
  "r \<noteq> [] \<Longrightarrow> \<not> p (hd r) \<Longrightarrow> length (dropWhile (\<lambda>c. \<not> p c) r) < length r"
  by (cases r) (auto simp: le_imp_less_Suc length_dropWhile_le)

lemma scan_string_lt:
  "\<not> snd (snd (scan_string st)) \<Longrightarrow> length (fst (snd (scan_string st))) < length (fst st)"
proof -
  assume ok: "\<not> snd (snd (scan_string st))"
  obtain buf fb where st: "st = (buf, fb)" by (cases st)
  let ?r = "dropWhile isspace buf"
  from ok st have nf: "\<not> fb" and ne: "?r \<noteq> []"
    by (auto simp: scan_string_def Let_def split: if_splits)
  from ne have "\<not> isspace (hd ?r)" by (rule hd_dropWhile)
  with ne have "length (dropWhile (\<lambda>c. \<not> isspace c) ?r) < length ?r"
    by (rule dropWhile_not_lt)
  also have "\<dots> \<le> length buf" by (rule length_dropWhile_le)
  finally show ?thesis using nf ne st by (auto simp: scan_string_def Let_def)
qed

lemma scan_int_len: "length (fst (snd (scan_int st))) \<le> length (fst st)"
proof -
  obtain buf fb where st: "st = (buf, fb)" by (cases st)
  have "length (drop n (dropWhile isspace buf)) \<le> length buf" for n
    using length_dropWhile_le [of isspace buf] by simp
  then show ?thesis
    by (auto simp: st scan_int_def Let_def split: prod.splits option.splits)
qed

lemma scan_int_fail: "snd st \<Longrightarrow> snd (snd (scan_int st))"
  by (auto simp: scan_int_def split: prod.splits)

lemma scan_float_len: "length (fst (snd (scan_float gf st))) \<le> length (fst st)"
proof -
  obtain buf fb where st: "st = (buf, fb)" by (cases st)
  have "length (drop n (dropWhile isspace buf)) \<le> length buf" for n
    using length_dropWhile_le [of isspace buf] by simp
  moreover have "length (dropWhile isspace buf) \<le> length buf"
    by (rule length_dropWhile_le)
  ultimately show ?thesis
    by (auto simp: st scan_float_def Let_def split: prod.splits option.splits)
qed

lemma scan_float_fail: "snd st \<Longrightarrow> snd (snd (scan_float gf st))"
  by (auto simp: scan_float_def split: prod.splits)

lemma assigned_snd [simp]: "snd (assigned cur r) = snd r"
  by (cases r) (simp add: assigned_def split: option.splits)

definition advances :: "istream \<Rightarrow> istream \<Rightarrow> bool" where
  "advances st st' = (length (fst st') \<le> length (fst st) \<and> (snd st \<longrightarrow> snd st'))"

lemma advances_refl: "advances st st"
  by (simp add: advances_def)

lemma advances_trans: "advances a b \<Longrightarrow> advances b c \<Longrightarrow> advances a c"
  by (auto simp: advances_def)

lemma advances_string: "advances st (snd (scan_string st))"
  by (simp add: advances_def scan_string_len scan_string_fail)

lemma advances_int: "advances st (snd (scan_int st))"
  by (simp add: advances_def scan_int_len scan_int_fail)

lemma advances_float: "advances st (snd (scan_float gf st))"
  by (simp add: advances_def scan_float_len scan_float_fail)

lemmas advances_then =
  advances_trans [OF _ advances_string] advances_trans [OF _ advances_int]
  advances_trans [OF _ advances_float]

lemma snd_read_head:
  "snd (read_head gf s st) =
     snd (scan_float gf (snd (scan_float gf (snd (scan_float gf (snd (scan_float gf
       (snd (scan_float gf (snd (scan_string (snd (scan_int (snd (scan_string
         (snd (scan_int (snd (scan_string st)))))))))))))))))))"
  by (simp add: read_head_def Let_def case_prod_beta)

lemma read_head_advances:
  "advances (snd (scan_string st)) (snd (read_head gf s st))"
  unfolding snd_read_head by (intro advances_then advances_refl)

lemma read_head_lt:
  assumes "\<not> snd (snd (read_head gf s st))"
  shows "length (fst (snd (read_head gf s st))) < length (fst st)"
proof -
  from assms read_head_advances [of st gf s] have "\<not> snd (snd (scan_string st))"
    and "length (fst (snd (read_head gf s st))) \<le> length (fst (snd (scan_string st)))"
    by (auto simp: advances_def)
  with scan_string_lt [of st] show ?thesis by simp
qed

lemma read_entries_advances: "advances st (snd (read_entries atts st))"
proof (induction atts arbitrary: st)
  case Nil
  show ?case by (simp add: advances_refl)
next
  case (Cons a rs)
  have "advances st (snd (scan_string (snd (scan_string st))))"
    by (intro advances_then advances_refl)
  then show ?case
    using Cons.IH [of "snd (scan_string (snd (scan_string st)))"]
    by (simp add: case_prod_beta Let_def advances_trans)
qed

lemma read_tail_advances:
  assumes "read_tail gf s st = Inr (s', st')"
  shows "advances st st'"
proof -
  obtain v st1 where v: "scan_int st = (Some v, st1)" and nn: "\<not> v < 0"
    using assms unfolding read_tail_def
    by (auto split: prod.splits option.splits if_splits)
  from assms v nn have "st' = snd (scan_float gf
      (snd (read_entries (resize (attendanceRecords s) (nat v)) st1)))"
    by (simp add: read_tail_def case_prod_beta Let_def)
  moreover have "advances st st1"
    using advances_int [of st] v by simp
  ultimately show ?thesis
    using read_entries_advances [of st1 "resize (attendanceRecords s) (nat v)"]
    by (auto intro: advances_trans advances_float)
qed

text \<open>
  The loop of \<^verbatim>\<open>loadFromFile\<close>. The object \<open>s\<close> is declared before the loop and lives
  through all iterations.
\<close>

function load_loop ::
  "(string \<Rightarrow> (real \<times> nat) option) \<Rightarrow> Student \<Rightarrow> Student list \<Rightarrow> istream \<Rightarrow> error + Student list" where
  "load_loop get_float s students st =
     (case read_head get_float s st of (s1, st1) \<Rightarrow>
        if snd st1 then Inr students
        else (case read_tail get_float s1 st1 of
                Inl e \<Rightarrow> Inl e
              | Inr (s2, st2) \<Rightarrow> load_loop get_float s2 (students @ [s2]) st2))"
  by pat_completeness auto
termination
proof (relation "measure (\<lambda>(gf, s, students, st). length (fst st))")
  show "wf (measure (\<lambda>(gf, s, students, st). length (fst st)))" by simp
next
  fix get_float s students st x1 x2 x2a x1a x2b
  assume h: "(x1, x2) = read_head get_float s st" "\<not> snd x2"
    and t: "read_tail get_float x1 x2 = Inr x2a" "(x1a, x2b) = x2a"
  from h have "length (fst x2) < length (fst st)"
    using read_head_lt [of get_float s st] by (metis snd_conv)
  moreover from t have "length (fst x2b) \<le> length (fst x2)"
    using read_tail_advances [of get_float x1 x2 x1a x2b] by (simp add: advances_def)
  ultimately show "((get_float, x1a, students @ [x1a], x2b), get_float, s, students, st)
       \<in> measure (\<lambda>(gf, s, students, st). length (fst st))"
    by simp
qed

declare load_loop.simps [simp del]

text \<open>
  \<^verbatim>\<open>loadFromFile\<close> and \<^verbatim>\<open>loadData\<close>. A file that cannot be opened (\<open>None\<close>) is a stream
  that has failed from the start.
\<close>

definition loadFromFile ::
  "(string \<Rightarrow> (real \<times> nat) option) \<Rightarrow> string option \<Rightarrow> error + Student list" where
  "loadFromFile get_float file =
     load_loop get_float fresh_Student []
       (case file of None \<Rightarrow> ([], True) | Some content \<Rightarrow> (content, False))"

definition loadData ::
  "(string \<Rightarrow> (real \<times> nat) option) \<Rightarrow> string option \<Rightarrow> error + Student list" where
  "loadData get_float file =
     (case loadFromFile get_float file of
        Inl e \<Rightarrow> Inl e
      | Inr students \<Rightarrow> Inr (map calculateGrade students))"

text \<open>
  \<^verbatim>\<open>FileHandler::saveToFile\<close>. The text of a \<^verbatim>\<open>float\<close> is the library's, the parameter
  \<open>put_float\<close>; it depends on the format flags of the stream. The stream starts with
  the default format; \<^verbatim>\<open>fixed << setprecision(2)\<close>, written before the first
  \<^verbatim>\<open>gpa\<close>, stays in force for everything written after it. The flag \<open>fixed\<close> says
  which of the two formats the stream is in.
\<close>

definition save_record :: "(bool \<Rightarrow> real \<Rightarrow> string) \<Rightarrow> bool \<Rightarrow> Student \<Rightarrow> string" where
  "save_record put_float fixed s =
     name s @ '' '' @ put_int (rollNo s) @ '' '' @ studentClass s @ '' '' @
     put_int (age s) @ '' '' @ gender s @
     concat (map (\<lambda>mark. '' '' @ put_float fixed mark) (marks_list (marks s))) @
     '' '' @ put_nat (length (attendanceRecords s)) @
     concat (map (\<lambda>att. '' '' @ date att @ '' '' @ status att) (attendanceRecords s)) @
     '' '' @ put_float True (gpa s) @ [CHR 0x0A]"

fun save_loop :: "(bool \<Rightarrow> real \<Rightarrow> string) \<Rightarrow> bool \<Rightarrow> Student list \<Rightarrow> string" where
  "save_loop put_float fixed [] = []"
| "save_loop put_float fixed (s # ss) =
     save_record put_float fixed s @ save_loop put_float True ss"

definition saveToFile :: "(bool \<Rightarrow> real \<Rightarrow> string) \<Rightarrow> Student list \<Rightarrow> string" where
  "saveToFile put_float students = save_loop put_float False students"







definition starts_with_space :: "string \<Rightarrow> bool" where
  "starts_with_space cs = (case cs of [] \<Rightarrow> False | c # _ \<Rightarrow> isspace c)"

section \<open>Plain decimal numerals\<close>

text \<open>
  The library reads a plain decimal numeral (a minus sign, digits, a fraction) as the
  number it denotes. The two functions below are the extraction of a \<^verbatim>\<open>float\<close> and
  \<^verbatim>\<open>std::stof\<close> on such texts; the worked examples of the CSV import and of the loader
  use them.
\<close>

definition get_float_plain :: "string \<Rightarrow> (real \<times> nat) option" where
  "get_float_plain cs =
     (let sgn = (case cs of [] \<Rightarrow> [] | c # _ \<Rightarrow> if c = CHR ''-'' then [c] else []);
          ip = takeWhile isdigit (drop (length sgn) cs);
          r1 = drop (length sgn + length ip) cs;
          fp = (case r1 of [] \<Rightarrow> []
                | c # r2 \<Rightarrow> if c = CHR ''.'' then takeWhile isdigit r2 else []);
          v = real (decimal_value ip) + real (decimal_value fp) / 10 ^ length fp
      in if ip = [] then None
         else Some (if sgn = [] then v else - v,
                    length sgn + length ip + (if fp = [] then 0 else 1 + length fp)))"

definition stof_plain :: "string \<Rightarrow> error + real" where
  "stof_plain str =
     (case get_float_plain (dropWhile isspace str) of
        None \<Rightarrow> Inl InvalidArgument
      | Some (v, n) \<Rightarrow> Inr v)"

section \<open>The library's float text\<close>

text \<open>
  The text of a \<^verbatim>\<open>float\<close> on an output stream is that of \<^verbatim>\<open>printf\<close>: \<^verbatim>\<open>%g\<close> with
  precision 6 in the default format and \<^verbatim>\<open>%.2f\<close> after \<^verbatim>\<open>fixed << setprecision(2)\<close>.
  Both round the value to the digits they keep, a tie to the even digit.
\<close>

definition round_half_even :: "real \<Rightarrow> int" where
  "round_half_even r =
     (let f = \<lfloor>r\<rfloor>; d = r - of_int f
      in if d < 1 / 2 then f else if 1 / 2 < d then f + 1 else if even f then f else f + 1)"

text \<open>
  The number \<open>n / 10 ^ d\<close> with \<open>d\<close> decimals, and the same with the zeros at the end of
  the fraction removed, and the point when no decimal is left.
\<close>

fun frac_digits :: "nat \<Rightarrow> nat \<Rightarrow> string" where
  "frac_digits d n =
     (if d = 0 then [] else frac_digits (d - 1) (n div 10) @ [digit_char (n mod 10)])"

declare frac_digits.simps [simp del]

definition fixed_text :: "nat \<Rightarrow> nat \<Rightarrow> string" where
  "fixed_text n d =
     put_nat (n div 10 ^ d) @ (if d = 0 then [] else CHR ''.'' # frac_digits d (n mod 10 ^ d))"

fun shortest_text :: "nat \<Rightarrow> nat \<Rightarrow> string" where
  "shortest_text n d =
     (if d = 0 then put_nat n
      else if n mod 10 = 0 then shortest_text (n div 10) (d - 1)
      else fixed_text n d)"

declare shortest_text.simps [simp del]

text \<open>
  The decimal exponent of a positive number \<open>a\<close>: the \<open>e\<close> with \<open>10 ^ e \<le> a < 10 ^ (e + 1)\<close>.
  At 1 and above it is the number of digits of the integer part less one; below 1 the
  search finds the first power of ten that lifts \<open>a\<close> to 1.
\<close>

lemma less_power_ten: "j < (10::nat) ^ j"
  by (induction j) auto

function small_exponent :: "real \<Rightarrow> nat \<Rightarrow> nat" where
  "small_exponent a j = (if a \<le> 0 \<or> 1 \<le> a * 10 ^ j then j else small_exponent a (Suc j))"
  by pat_completeness auto
termination
proof (relation "measure (\<lambda>(a, j). nat \<lceil>1 / a\<rceil> - j)")
  show "wf (measure (\<lambda>(a, j). nat \<lceil>1 / a\<rceil> - j))" by simp
next
  fix a :: real and j :: nat
  assume "\<not> (a \<le> 0 \<or> 1 \<le> a * 10 ^ j)"
  then have pos: "0 < a" and lt: "a * 10 ^ j < 1" by simp_all
  have "real j < real (10 ^ j)" using less_power_ten [of j] by (simp only: of_nat_less_iff)
  then have "real j < 10 ^ j" by simp
  also have "\<dots> < 1 / a" using pos lt by (simp add: field_simps)
  also have "\<dots> \<le> of_int \<lceil>1 / a\<rceil>" by simp
  finally have "j < nat \<lceil>1 / a\<rceil>" by linarith
  then show "((a, Suc j), (a, j)) \<in> measure (\<lambda>(a, j). nat \<lceil>1 / a\<rceil> - j)"
    by simp
qed

declare small_exponent.simps [simp del]

definition dec_exponent :: "real \<Rightarrow> int" where
  "dec_exponent a =
     (if 1 \<le> a then int (length (put_nat (nat \<lfloor>a\<rfloor>))) - 1 else - int (small_exponent a 1))"

definition scaled :: "real \<Rightarrow> int \<Rightarrow> real" where
  "scaled a e = (if 0 \<le> e then a * 10 ^ nat e else a / 10 ^ nat (- e))"

text \<open>
  \<^verbatim>\<open>%g\<close> with precision 6: six significant digits; the exponent form when the exponent
  is below -4 or at least 6, with at least two exponent digits.
\<close>

definition exponent_text :: "int \<Rightarrow> string" where
  "exponent_text e =
     (if e < 0 then CHR ''-'' else CHR ''+'') #
     (if \<bar>e\<bar> < 10 then CHR ''0'' # put_nat (nat \<bar>e\<bar>) else put_nat (nat \<bar>e\<bar>))"

definition general_text :: "real \<Rightarrow> string" where
  "general_text a =
     (let e0 = dec_exponent a;
          n0 = nat (round_half_even (scaled a (5 - e0)));
          n = (if n0 = 1000000 then 100000 else n0);
          e = (if n0 = 1000000 then e0 + 1 else e0)
      in if e < - 4 \<or> 6 \<le> e
         then shortest_text n 5 @ CHR ''e'' # exponent_text e
         else shortest_text n (nat (5 - e)))"

definition write_float :: "bool \<Rightarrow> real \<Rightarrow> string" where
  "write_float fixed x =
     (if fixed
      then (if x < 0 then ''-'' else []) @ fixed_text (nat (round_half_even (\<bar>x\<bar> * 100))) 2
      else if x = 0 then ''0''
      else (if x < 0 then ''-'' else []) @ general_text \<bar>x\<bar>)"

text \<open>
  The extraction of a \<^verbatim>\<open>float\<close>: a sign, digits, a point and digits, and an exponent
  when digits precede it. Without a digit before the exponent, or with an exponent
  character that no digit follows, the conversion fails.
\<close>

definition read_float :: "string \<Rightarrow> (real \<times> nat) option" where
  "read_float cs =
     (let sgn = (case cs of [] \<Rightarrow> [] | c # _ \<Rightarrow> if c = CHR ''-'' \<or> c = CHR ''+'' then [c] else []);
          r0 = drop (length sgn) cs;
          ip = takeWhile isdigit r0;
          r1 = drop (length ip) r0;
          pt = (case r1 of [] \<Rightarrow> [] | c # _ \<Rightarrow> if c = CHR ''.'' then [c] else []);
          fp = takeWhile isdigit (drop (length pt) r1);
          r2 = drop (length pt + length fp) r1;
          mant = real (decimal_value ip) + real (decimal_value fp) / 10 ^ length fp;
          n = length sgn + length ip + length pt + length fp
      in if ip = [] \<and> fp = [] then None
         else (case r2 of
                 [] \<Rightarrow> Some (if sgn = ''-'' then - mant else mant, n)
               | c # r3 \<Rightarrow>
                   if c = CHR ''e'' \<or> c = CHR ''E''
                   then (let es = (case r3 of [] \<Rightarrow> []
                                   | c # _ \<Rightarrow> if c = CHR ''-'' \<or> c = CHR ''+'' then [c] else []);
                             ed = takeWhile isdigit (drop (length es) r3);
                             v = (if es = ''-'' then mant / 10 ^ decimal_value ed
                                  else mant * 10 ^ decimal_value ed)
                         in if ed = [] then None
                            else Some (if sgn = ''-'' then - v else v,
                                       n + 1 + length es + length ed))
                   else Some (if sgn = ''-'' then - mant else mant, n)))"




section \<open>Evaluation\<close>

text \<open>The defining equations with which the worked examples are computed.\<close>

lemmas text_eval =
  stoi_def scan_integer_def isspace_def isdigit_def decimal_value_def digit_val_def
  INT_MIN_def INT_MAX_def Let_def get_float_plain_def stof_plain_def

lemmas stream_eval =
  scan_string_def scan_int_def scan_float_def assigned_def read_head_def read_tail_def
  resize_def load_loop.simps

lemma digit_char_numeral:
  "digit_char 0 = CHR ''0''" "digit_char (Suc 0) = CHR ''1''" "digit_char 2 = CHR ''2''"
  "digit_char 3 = CHR ''3''" "digit_char 4 = CHR ''4''" "digit_char 5 = CHR ''5''"
  "digit_char 6 = CHR ''6''" "digit_char 7 = CHR ''7''" "digit_char 8 = CHR ''8''"
  "digit_char 9 = CHR ''9''"
  by (simp_all add: digit_char_def char_of_def bit_Suc_0_iff)

lemmas float_eval =
  write_float_def general_text_def dec_exponent_def scaled_def round_half_even_def
  fixed_text_def put_nat.simps digit_char_numeral Let_def exponent_text_def
  small_exponent.simps frac_digits.simps shortest_text.simps read_float_def

section \<open>Derived fields (C1, C2)\<close>

text \<open>
  \<^verbatim>\<open>calculateGrade\<close> makes the derived fields of a record consistent with its marks, and
  the operations that store the record it returns keep a consistent roster consistent.
\<close>

lemma calculateGrade_consistent: "derived_consistent (calculateGrade s)"
  by (cases "marks s")
    (simp add: derived_consistent_def calculateGrade_def marks_total_def marks_list_def Let_def)

lemma addStudent_consistent:
  "list_all derived_consistent students \<Longrightarrow>
   list_all derived_consistent (fst (addStudent nm roll cls ag gen students))"
  by (simp add: addStudent_def calculateGrade_consistent)

lemma list_all_update:
  "list_all P xs \<Longrightarrow> P x \<Longrightarrow> list_all P (xs[i := x])"
  by (induction xs arbitrary: i) (auto split: nat.splits)

lemma updateStudent_consistent:
  "list_all derived_consistent students \<Longrightarrow>
   list_all derived_consistent (fst (updateStudent roll nm cls ag gen students))"
  by (auto simp: updateStudent_def Let_def calculateGrade_consistent list_all_update
      split: option.splits)

lemma enterMarks_consistent:
  "list_all derived_consistent students \<Longrightarrow>
   list_all derived_consistent (fst (enterMarks roll ms students))"
  by (auto simp: enterMarks_def Let_def calculateGrade_consistent list_all_update
      split: option.splits)

lemma loadData_consistent:
  "loadData get_float file = Inr students \<Longrightarrow> list_all derived_consistent students"
  by (auto simp: loadData_def list_all_iff calculateGrade_consistent split: sum.splits)

text \<open>
  C1. Claim: after add, update, setMarks, loadRoster and importCsv the derived fields of
  every record of the roster are consistent with its marks. The import does not keep
  this: it stores the record before the grade is computed. Importing the row
  \<^verbatim>\<open>1,Ann,X,20,F,85,B,3.00,0.00%\<close> into an empty roster leaves one record with
  percentage 85 and marks that are all 0.
\<close>

theorem importFromCSV_breaks_consistency:
  "importFromCSV stof_plain
     (Some (''Roll,Name,Class,Age,Gender,Percentage,Grade,GPA,Attendance%'' @ [CHR 0x0A] @
            ''1,Ann,X,20,F,85,B,3.00,0.00%'' @ [CHR 0x0A])) []
   = Inr [fresh_Student\<lparr>rollNo := 1, name := ''Ann'', studentClass := ''X'', age := 20,
            gender := ''F'', percentage := 85, grade := CHR ''B'', gpa := 3\<rparr>] \<and>
   \<not> derived_consistent
     (fresh_Student\<lparr>rollNo := 1, name := ''Ann'', studentClass := ''X'', age := 20,
            gender := ''F'', percentage := 85, grade := CHR ''B'', gpa := 3\<rparr>)"
  by (simp add: importFromCSV_def import_row_def getline_delim_def text_eval
      derived_consistent_def fresh_Student_def)

text \<open>
  C2. Claim: the record the import puts into the roster has its grade, GPA and percentage
  recomputed from its marks, not the values of the CSV row. For the row
  \<^verbatim>\<open>7,Bob,Y,21,M,92.5,A,4.00,50.00%\<close> the record in the roster carries the row's
  92.5, A and 4, where the recomputation from its marks gives 0, F and 0.
\<close>

theorem importFromCSV_keeps_csv_values:
  "importFromCSV stof_plain
     (Some (''Roll,Name,Class,Age,Gender,Percentage,Grade,GPA,Attendance%'' @ [CHR 0x0A] @
            ''7,Bob,Y,21,M,92.5,A,4.00,50.00%'')) []
   = Inr [fresh_Student\<lparr>rollNo := 7, name := ''Bob'', studentClass := ''Y'', age := 21,
            gender := ''M'', percentage := 185 / 2, grade := CHR ''A'', gpa := 4\<rparr>] \<and>
   calculateGrade
     (fresh_Student\<lparr>rollNo := 7, name := ''Bob'', studentClass := ''Y'', age := 21,
            gender := ''M'', percentage := 185 / 2, grade := CHR ''A'', gpa := 4\<rparr>)
   = fresh_Student\<lparr>rollNo := 7, name := ''Bob'', studentClass := ''Y'', age := 21,
            gender := ''M'', percentage := 0, grade := CHR ''F'', gpa := 0\<rparr>"
  by (simp add: importFromCSV_def import_row_def getline_delim_def text_eval
      calculateGrade_def marks_total_def marks_list_def strategy_calculateGrade_def
      strategy_calculateGPA_def fresh_Student_def)

section \<open>Sorting (C3)\<close>

subsection \<open>The insertion sort\<close>

lemma sorted_split:
  "sorted (map rollNo xs) \<Longrightarrow>
   filter (\<lambda>p. rollNo p \<le> c) xs @ filter (\<lambda>p. c < rollNo p) xs = xs"
proof (induction xs)
  case Nil
  show ?case by simp
next
  case (Cons x xs)
  show ?case
  proof (cases "rollNo x \<le> c")
    case True
    with Cons show ?thesis by simp
  next
    case False
    with Cons.prems have "\<forall>y\<in>set xs. \<not> rollNo y \<le> c" by auto
    then have "filter (\<lambda>p. rollNo p \<le> c) xs = []" "filter (\<lambda>p. c < rollNo p) xs = xs"
      by (auto simp: filter_empty_conv filter_id_conv)
    with False show ?thesis by simp
  qed
qed

lemma sort_key_snoc:
  "sort_key rollNo (L @ [v]) =
     filter (\<lambda>p. rollNo p \<le> rollNo v) (sort_key rollNo L) @
     v # filter (\<lambda>p. rollNo v < rollNo p) (sort_key rollNo L)"
    (is "_ = ?A @ v # ?B")
proof (rule properties_for_sort_key)
  have split: "?A @ ?B = sort_key rollNo L"
    by (rule sorted_split) simp
  have "mset (?A @ ?B) = mset L" by (simp only: split mset_sort)
  then show "mset (?A @ v # ?B) = mset (L @ [v])" by simp
next
  fix k
  have split: "?A @ ?B = sort_key rollNo L"
    by (rule sorted_split) simp
  have "filter (\<lambda>x. rollNo k = rollNo x) (sort_key rollNo L) = filter (\<lambda>x. rollNo k = rollNo x) L"
    using sort_key_stable [of rollNo "rollNo k" L] by (simp add: eq_commute)
  then have "filter (\<lambda>x. rollNo k = rollNo x) (?A @ ?B) = filter (\<lambda>x. rollNo k = rollNo x) L"
    by (simp only: split)
  then show "filter (\<lambda>x. rollNo k = rollNo x) (?A @ v # ?B) =
      filter (\<lambda>x. rollNo k = rollNo x) (L @ [v])"
    by (cases "rollNo k = rollNo v") (auto simp: filter_empty_conv)
next
  have "sorted (map rollNo (sort_key rollNo L))" by simp
  then have "sorted (map rollNo ?A)" "sorted (map rollNo ?B)"
    by (rule sorted_filter)+
  then show "sorted (map rollNo (?A @ v # ?B))"
    by (auto simp: sorted_append)
qed

lemma unguarded_linear_insert_sorted:
  assumes "sorted (map rollNo P)" "\<exists>p\<in>set P. rollNo p \<le> rollNo v"
  shows "unguarded_linear_insert (P @ h # R) (length P) v =
           Some (filter (\<lambda>p. rollNo p \<le> rollNo v) P @
                 v # filter (\<lambda>p. rollNo v < rollNo p) P @ R)"
  using assms
proof (induction P arbitrary: h R rule: rev_induct)
  case Nil
  then show ?case by simp
next
  case (snoc y Q)
  from snoc.prems(1) have sq: "sorted (map rollNo Q)" and le: "\<forall>q\<in>set Q. rollNo q \<le> rollNo y"
    by (auto simp: sorted_append)
  show ?case
  proof (cases "rollNo v < rollNo y")
    case True
    with snoc.prems(2) have sent: "\<exists>p\<in>set Q. rollNo p \<le> rollNo v" by auto
    have upd: "(Q @ y # h # R)[Suc (length Q) := y] = Q @ y # y # R"
      by (simp add: list_update_append)
    from True show ?thesis
      using snoc.IH [OF sq sent, of y "y # R"]
      by (simp add: by_roll_def nth_append upd)
  next
    case False
    with le have all: "\<forall>q\<in>set Q. rollNo q \<le> rollNo v" by auto
    then have f: "filter (\<lambda>p. rollNo p \<le> rollNo v) Q = Q" "filter (\<lambda>p. rollNo v < rollNo p) Q = []"
      by (auto simp: filter_empty_conv filter_id_conv)
    have upd: "(Q @ y # h # R)[Suc (length Q) := v] = Q @ y # v # R"
      by (simp add: list_update_append)
    from False show ?thesis
      by (simp add: by_roll_def nth_append upd f)
  qed
qed

lemma unguarded_linear_insert_sort_key:
  assumes "\<exists>p\<in>set P. rollNo p \<le> rollNo v"
  shows "unguarded_linear_insert (sort_key rollNo P @ v # R) (length P) v =
           Some (sort_key rollNo (P @ [v]) @ R)"
  using unguarded_linear_insert_sorted [of "sort_key rollNo P" v v R] assms
  by (simp add: sort_key_snoc)

lemma min_at_front:
  assumes "P \<noteq> []"
  shows "\<forall>p\<in>set P. rollNo (sort_key rollNo P ! 0) \<le> rollNo p"
proof -
  have s: "sorted (map rollNo (sort_key rollNo P))" by simp
  have ne: "sort_key rollNo P \<noteq> []" using assms by (metis length_sort length_0_conv)
  then obtain x xs where c: "sort_key rollNo P = x # xs" by (cases "sort_key rollNo P") auto
  with s have "\<forall>p\<in>set (x # xs). rollNo x \<le> rollNo p" by auto
  moreover have "set P = set (x # xs)" using c by (metis set_sort)
  ultimately show ?thesis by (simp add: c)
qed

lemma insertion_loop_sort_key:
  assumes "P \<noteq> []" "n \<le> length R"
  shows "insertion_loop (sort_key rollNo P @ R) (length P) n =
           Some (sort_key rollNo (P @ take n R) @ drop n R)"
  using assms
proof (induction n arbitrary: P R)
  case 0
  show ?case by simp
next
  case (Suc n)
  from Suc.prems(2) obtain v R' where R: "R = v # R'" and n: "n \<le> length R'"
    by (cases R) auto
  let ?S = "sort_key rollNo P"
  have len: "length ?S = length P" by simp
  have nth: "(?S @ v # R') ! length P = v"
    using nth_append_length [of ?S v R'] by simp
  have ne: "?S \<noteq> []" using Suc.prems(1) by (metis length_sort length_0_conv)
  then have hd0: "(?S @ v # R') ! 0 = ?S ! 0" by (cases ?S) auto
  have step: "insertion_loop (?S @ v # R') (length P) (Suc n) =
      insertion_loop (sort_key rollNo (P @ [v]) @ R') (Suc (length P)) n"
  proof (cases "rollNo v < rollNo (?S ! 0)")
    case True
    with min_at_front [OF Suc.prems(1)] have "\<forall>p\<in>set ?S. rollNo v < rollNo p"
      by auto
    then have f: "filter (\<lambda>p. rollNo p \<le> rollNo v) ?S = []" "filter (\<lambda>p. rollNo v < rollNo p) ?S = ?S"
      by (auto simp: filter_empty_conv filter_id_conv)
    have tk: "take (length P) (?S @ v # R') = ?S" "drop (Suc (length P)) (?S @ v # R') = R'"
      using len by simp_all
    from True show ?thesis
      by (simp add: by_roll_def nth hd0 tk sort_key_snoc f del: sort_key_simps)
  next
    case False
    have "\<exists>p\<in>set P. rollNo p \<le> rollNo v"
    proof -
      from ne have "?S ! 0 \<in> set ?S" by (cases ?S) auto
      then have "?S ! 0 \<in> set P" by simp
      with False show ?thesis by (intro bexI [of _ "?S ! 0"]) auto
    qed
    from unguarded_linear_insert_sort_key [OF this, of R'] False show ?thesis
      by (simp add: by_roll_def nth hd0)
  qed
  have "insertion_loop (sort_key rollNo (P @ [v]) @ R') (length (P @ [v])) n =
      Some (sort_key rollNo ((P @ [v]) @ take n R') @ drop n R')"
    by (rule Suc.IH) (simp_all add: n)
  with step show ?case by (simp add: R)
qed

lemma insertion_sort_sort_key:
  assumes "k \<le> length xs"
  shows "insertion_sort xs k = Some (sort_key rollNo (take k xs) @ drop k xs)"
proof (cases k)
  case 0
  then show ?thesis by (simp add: insertion_sort_def)
next
  case (Suc j)
  with assms obtain x R where xs: "xs = x # R" and j: "j \<le> length R" by (cases xs) auto
  from insertion_loop_sort_key [of "[x]" j R] j show ?thesis
    by (simp add: insertion_sort_def Suc xs)
qed

lemma unguarded_insertion_sort_sort_key:
  assumes "n \<le> length R" "\<forall>v\<in>set (take n R). \<exists>p\<in>set P. rollNo p \<le> rollNo v"
  shows "unguarded_insertion_sort (sort_key rollNo P @ R) (length P) n =
           Some (sort_key rollNo (P @ take n R) @ drop n R)"
  using assms
proof (induction n arbitrary: P R)
  case 0
  show ?case by simp
next
  case (Suc n)
  from Suc.prems(1) obtain v R' where R: "R = v # R'" and n: "n \<le> length R'"
    by (cases R) auto
  let ?S = "sort_key rollNo P"
  have nth: "(?S @ v # R') ! length P = v"
    using nth_append_length [of ?S v R'] by simp
  from Suc.prems(2) have sent: "\<exists>p\<in>set P. rollNo p \<le> rollNo v"
    and rest: "\<forall>w\<in>set (take n R'). \<exists>p\<in>set (P @ [v]). rollNo p \<le> rollNo w"
    by (auto simp: R)
  have "unguarded_insertion_sort (sort_key rollNo (P @ [v]) @ R') (length (P @ [v])) n =
      Some (sort_key rollNo ((P @ [v]) @ take n R') @ drop n R')"
    using n rest by (rule Suc.IH)
  with unguarded_linear_insert_sort_key [OF sent, of R'] show ?case
    by (simp add: R nth)
qed

lemma final_insertion_sort_sort_key:
  assumes "length xs \<le> 16 \<or> (\<exists>p\<in>set (take 16 xs). \<forall>v\<in>set xs. rollNo p \<le> rollNo v)"
  shows "final_insertion_sort xs = Some (sort_key rollNo xs)"
proof (cases "16 < length xs")
  case False
  then show ?thesis
    by (simp add: final_insertion_sort_def insertion_sort_sort_key)
next
  case True
  with assms obtain p where p: "p \<in> set (take 16 xs)" "\<forall>v\<in>set xs. rollNo p \<le> rollNo v"
    by auto
  have a: "insertion_sort xs 16 = Some (sort_key rollNo (take 16 xs) @ drop 16 xs)"
    using True by (simp add: insertion_sort_sort_key)
  have len: "length (take 16 xs) = 16" using True by simp
  have "\<forall>v\<in>set (take (length xs - 16) (drop 16 xs)). \<exists>p\<in>set (take 16 xs). rollNo p \<le> rollNo v"
    using p by (auto dest: in_set_takeD in_set_dropD)
  with unguarded_insertion_sort_sort_key [of "length xs - 16" "drop 16 xs" "take 16 xs"]
  have "unguarded_insertion_sort (sort_key rollNo (take 16 xs) @ drop 16 xs) 16 (length xs - 16) =
      Some (sort_key rollNo xs)"
    using True by (simp add: min_def)
  with a True show ?thesis by (simp add: final_insertion_sort_def)
qed

subsection \<open>The partition\<close>

lemma length_iter_swap: "length (iter_swap xs i j) = length xs"
  by (simp add: iter_swap_def)

lemma mset_iter_swap: "i < length xs \<Longrightarrow> j < length xs \<Longrightarrow> mset (iter_swap xs i j) = mset xs"
  unfolding iter_swap_def by (rule mset_swap)

lemma nth_iter_swap:
  "i < length xs \<Longrightarrow> j < length xs \<Longrightarrow> k < length xs \<Longrightarrow>
   iter_swap xs i j ! k = (if k = j then xs ! i else if k = i then xs ! j else xs ! k)"
  by (simp add: iter_swap_def nth_list_update)

lemma scan_first_spec:
  "scan_first xs first = Some f \<Longrightarrow>
   first \<le> f \<and> f < length xs \<and> rollNo (xs ! 0) \<le> rollNo (xs ! f) \<and>
   (\<forall>k. first \<le> k \<and> k < f \<longrightarrow> rollNo (xs ! k) < rollNo (xs ! 0))"
proof (induction xs first rule: scan_first.induct)
  case (1 xs first)
  show ?case
  proof (cases "by_roll (xs ! first) (xs ! 0)")
    case True
    with "1.prems" have lt: "first < length xs" and rec: "scan_first xs (Suc first) = Some f"
      by (subst (asm) scan_first.simps, simp split: if_splits)+
    from "1.IH" [OF _ True rec] lt
    have ih: "Suc first \<le> f" "f < length xs" "rollNo (xs ! 0) \<le> rollNo (xs ! f)"
      "\<forall>k. Suc first \<le> k \<and> k < f \<longrightarrow> rollNo (xs ! k) < rollNo (xs ! 0)"
      by simp_all
    have "rollNo (xs ! k) < rollNo (xs ! 0)" if "first \<le> k" "k < f" for k
    proof (cases "k = first")
      case True
      with \<open>by_roll (xs ! first) (xs ! 0)\<close> show ?thesis by (simp add: by_roll_def)
    next
      case False
      with that ih(4) show ?thesis by simp
    qed
    with ih show ?thesis by simp
  next
    case False
    with "1.prems" have "first < length xs" "f = first"
      by (subst (asm) scan_first.simps, simp split: if_splits)+
    with False show ?thesis by (simp add: by_roll_def)
  qed
qed

lemma scan_first_exists:
  "first \<le> s \<Longrightarrow> s < length xs \<Longrightarrow> rollNo (xs ! 0) \<le> rollNo (xs ! s) \<Longrightarrow>
   \<exists>f. scan_first xs first = Some f"
proof (induction xs first rule: scan_first.induct)
  case (1 xs first)
  show ?case
  proof (cases "by_roll (xs ! first) (xs ! 0)")
    case True
    with "1.prems" have "first \<noteq> s" by (auto simp: by_roll_def)
    with "1.prems" have "Suc first \<le> s" "first < length xs" by simp_all
    with "1.IH" [OF _ True] "1.prems" True show ?thesis
      by (subst scan_first.simps) simp
  next
    case False
    with "1.prems" show ?thesis by (subst scan_first.simps) simp
  qed
qed

lemma scan_last_spec:
  "scan_last xs j \<le> j \<and> rollNo (xs ! scan_last xs j) \<le> rollNo (xs ! 0) \<and>
   (\<forall>k. scan_last xs j < k \<and> k \<le> j \<longrightarrow> rollNo (xs ! 0) < rollNo (xs ! k))"
proof (induction xs j rule: scan_last.induct)
  case (1 xs j)
  show ?case
  proof (cases "by_roll (xs ! 0) (xs ! j)")
    case True
    then have e: "scan_last xs j = scan_last xs (j - 1)" by (subst scan_last.simps) simp
    from True have j: "j \<noteq> 0" by (cases "j = 0") (auto simp: by_roll_def)
    have "rollNo (xs ! 0) < rollNo (xs ! k)" if "scan_last xs (j - 1) < k" "k \<le> j" for k
    proof (cases "k = j")
      case True
      with \<open>by_roll (xs ! 0) (xs ! j)\<close> show ?thesis by (simp add: by_roll_def)
    next
      case False
      with that have "k \<le> j - 1" by simp
      with "1.IH" [OF True] that(1) show ?thesis by simp
    qed
    moreover from "1.IH" [OF True] have "scan_last xs (j - 1) \<le> j" by linarith
    ultimately show ?thesis using "1.IH" [OF True] by (simp add: e)
  next
    case False
    then have "scan_last xs j = j" by (subst scan_last.simps) simp
    with False show ?thesis by (simp add: by_roll_def)
  qed
qed

lemma unguarded_partition_correct:
  assumes "1 \<le> first" "last' \<le> length xs" "first \<le> s" "s < length xs"
    and "rollNo (xs ! 0) \<le> rollNo (xs ! s)"
    and "\<forall>k. 1 \<le> k \<and> k < first \<longrightarrow> rollNo (xs ! k) \<le> rollNo (xs ! 0)"
    and "\<forall>k. last' \<le> k \<and> k < length xs \<longrightarrow> rollNo (xs ! 0) \<le> rollNo (xs ! k)"
  shows "\<exists>ys cut'. unguarded_partition xs first last' = Some (ys, cut') \<and>
           mset ys = mset xs \<and> 1 \<le> cut' \<and> cut' < length xs \<and> ys ! 0 = xs ! 0 \<and>
           (\<forall>k. k < cut' \<longrightarrow> rollNo (ys ! k) \<le> rollNo (ys ! 0)) \<and>
           (\<forall>k. cut' \<le> k \<and> k < length xs \<longrightarrow> rollNo (ys ! 0) \<le> rollNo (ys ! k))"
  using assms
proof (induction xs first last' arbitrary: s rule: unguarded_partition.induct)
  case (1 xs first last')
  from scan_first_exists [OF "1.prems"(3,4,5)] obtain f where f: "scan_first xs first = Some f" ..
  from scan_first_spec [OF f] have fs: "first \<le> f" "f < length xs"
    "rollNo (xs ! 0) \<le> rollNo (xs ! f)"
    "\<forall>k. first \<le> k \<and> k < f \<longrightarrow> rollNo (xs ! k) < rollNo (xs ! 0)"
    by simp_all
  define l where "l = scan_last xs (last' - 1)"
  from scan_last_spec [of xs "last' - 1"] have ls: "l \<le> last' - 1"
    "rollNo (xs ! l) \<le> rollNo (xs ! 0)"
    "\<forall>k. l < k \<and> k \<le> last' - 1 \<longrightarrow> rollNo (xs ! 0) < rollNo (xs ! k)"
    by (simp_all add: l_def)
  have l': "scan_last xs (last' - Suc 0) = l" by (simp add: l_def)
  have below: "rollNo (xs ! k) \<le> rollNo (xs ! 0)" if "k < f" for k
  proof -
    consider "k = 0" | "1 \<le> k" "k < first" | "first \<le> k" by linarith
    then show ?thesis
    proof cases
      case 1 then show ?thesis by simp
    next
      case 2 with "1.prems"(6) show ?thesis by simp
    next
      case 3 with fs(4) that show ?thesis by (simp add: less_imp_le)
    qed
  qed
  have above: "rollNo (xs ! 0) \<le> rollNo (xs ! k)" if "l < k" "k < length xs" for k
  proof (cases "last' \<le> k")
    case True
    with "1.prems"(7) that show ?thesis by simp
  next
    case False
    with ls(3) that show ?thesis by (simp add: less_imp_le)
  qed
  show ?case
  proof (cases "f < l")
    case False
    then have res: "unguarded_partition xs first last' = Some (xs, f)"
      by (subst unguarded_partition.simps) (simp add: f l')
    have "rollNo (xs ! 0) \<le> rollNo (xs ! k)" if "f \<le> k" "k < length xs" for k
    proof (cases "k = f")
      case True with fs(3) show ?thesis by simp
    next
      case ne: False
      with that False have "l < k" by simp
      with above that show ?thesis by simp
    qed
    with below fs "1.prems"(1) show ?thesis by (simp add: res)
  next
    case True
    let ?xs = "iter_swap xs f l"
    from True ls(1) "1.prems"(2) have ll: "l < length xs" "l < last'" by simp_all
    from fs "1.prems"(1) True have f0: "f \<noteq> 0" "l \<noteq> 0" "f \<noteq> l" by simp_all
    have nth: "?xs ! k = (if k = l then xs ! f else if k = f then xs ! l else xs ! k)"
      if "k < length xs" for k
      using nth_iter_swap [OF fs(2) ll(1) that] .
    have "0 < length xs" using fs(2) by (cases xs) simp_all
    from nth [OF this] have n0: "?xs ! 0 = xs ! 0"
      using f0 by simp
    have res: "unguarded_partition xs first last' = unguarded_partition ?xs (Suc f) l"
      using True by (subst unguarded_partition.simps) (simp add: f l')
    have a: "\<forall>k. 1 \<le> k \<and> k < Suc f \<longrightarrow> rollNo (?xs ! k) \<le> rollNo (?xs ! 0)"
    proof (intro allI impI)
      fix k assume k: "1 \<le> k \<and> k < Suc f"
      then have kl: "k < length xs" "k \<noteq> l" using fs(2) True by simp_all
      show "rollNo (?xs ! k) \<le> rollNo (?xs ! 0)"
      proof (cases "k = f")
        case True
        with ls(2) kl show ?thesis by (simp add: nth n0)
      next
        case False
        with k have "k < f" by simp
        with below [of k] kl False show ?thesis by (simp add: nth n0)
      qed
    qed
    have b: "\<forall>k. l \<le> k \<and> k < length ?xs \<longrightarrow> rollNo (?xs ! 0) \<le> rollNo (?xs ! k)"
    proof (intro allI impI)
      fix k assume k: "l \<le> k \<and> k < length ?xs"
      then have kl: "k < length xs" "k \<noteq> f" using True by (simp_all add: length_iter_swap)
      show "rollNo (?xs ! 0) \<le> rollNo (?xs ! k)"
      proof (cases "k = l")
        case True
        with fs(3) kl show ?thesis by (simp add: nth n0)
      next
        case False
        with k have "l < k" by simp
        with above [of k] kl False show ?thesis by (simp add: nth n0)
      qed
    qed
    have sent: "rollNo (?xs ! 0) \<le> rollNo (?xs ! l)"
      using fs(3) ll(1) by (simp add: nth n0)
    have "\<exists>ys cut'. unguarded_partition ?xs (Suc f) l = Some (ys, cut') \<and>
           mset ys = mset ?xs \<and> 1 \<le> cut' \<and> cut' < length ?xs \<and> ys ! 0 = ?xs ! 0 \<and>
           (\<forall>k. k < cut' \<longrightarrow> rollNo (ys ! k) \<le> rollNo (ys ! 0)) \<and>
           (\<forall>k. cut' \<le> k \<and> k < length ?xs \<longrightarrow> rollNo (ys ! 0) \<le> rollNo (ys ! k))"
    proof (rule "1.IH" [OF f l_def _ _ _ _ _ sent a b])
      show "\<not> \<not> f < l" using True by simp
      show "1 \<le> Suc f" by simp
      show "l \<le> length ?xs" using ll(1) by (simp add: length_iter_swap)
      show "Suc f \<le> l" using True by simp
      show "l < length ?xs" using ll(1) by (simp add: length_iter_swap)
    qed
    then show ?thesis
      by (simp add: res length_iter_swap n0 mset_iter_swap [OF fs(2) ll(1)])
  qed
qed

lemma move_median_to_first_cases:
  "\<exists>m s. {m, s} \<subseteq> {a, b, c} \<and> (a \<noteq> b \<and> a \<noteq> c \<and> b \<noteq> c \<longrightarrow> m \<noteq> s) \<and>
         move_median_to_first xs r a b c = iter_swap xs r m \<and>
         rollNo (xs ! m) \<le> rollNo (xs ! s)"
proof -
  let ?P = "\<lambda>m s. {m, s} \<subseteq> {a, b, c} \<and> (a \<noteq> b \<and> a \<noteq> c \<and> b \<noteq> c \<longrightarrow> m \<noteq> s) \<and>
         move_median_to_first xs r a b c = iter_swap xs r m \<and>
         rollNo (xs ! m) \<le> rollNo (xs ! s)"
  consider (bc) "rollNo (xs ! a) < rollNo (xs ! b)" "rollNo (xs ! b) < rollNo (xs ! c)"
    | (ac) "rollNo (xs ! a) < rollNo (xs ! b)" "\<not> rollNo (xs ! b) < rollNo (xs ! c)"
        "rollNo (xs ! a) < rollNo (xs ! c)"
    | (ab) "rollNo (xs ! a) < rollNo (xs ! b)" "\<not> rollNo (xs ! b) < rollNo (xs ! c)"
        "\<not> rollNo (xs ! a) < rollNo (xs ! c)"
    | (ac') "\<not> rollNo (xs ! a) < rollNo (xs ! b)" "rollNo (xs ! a) < rollNo (xs ! c)"
    | (bc') "\<not> rollNo (xs ! a) < rollNo (xs ! b)" "\<not> rollNo (xs ! a) < rollNo (xs ! c)"
        "rollNo (xs ! b) < rollNo (xs ! c)"
    | (ba') "\<not> rollNo (xs ! a) < rollNo (xs ! b)" "\<not> rollNo (xs ! a) < rollNo (xs ! c)"
        "\<not> rollNo (xs ! b) < rollNo (xs ! c)"
    by blast
  then show ?thesis
  proof cases
    case bc then have "?P b c" by (simp add: move_median_to_first_def by_roll_def)
    then show ?thesis by blast
  next
    case ac then have "?P c b" by (simp add: move_median_to_first_def by_roll_def)
    then show ?thesis by blast
  next
    case ab then have "?P a b" by (simp add: move_median_to_first_def by_roll_def)
    then show ?thesis by blast
  next
    case ac' then have "?P a c" by (simp add: move_median_to_first_def by_roll_def)
    then show ?thesis by blast
  next
    case bc' then have "?P c a" by (simp add: move_median_to_first_def by_roll_def)
    then show ?thesis by blast
  next
    case ba' then have "?P b a" by (simp add: move_median_to_first_def by_roll_def)
    then show ?thesis by blast
  qed
qed

lemma unguarded_partition_pivot_correct:
  assumes "16 < length xs"
  shows "\<exists>ys cut'. unguarded_partition_pivot xs = Some (ys, cut') \<and>
           mset ys = mset xs \<and> 1 \<le> cut' \<and> cut' < length xs \<and>
           (\<forall>x\<in>set (take cut' ys). \<forall>y\<in>set (drop cut' ys). rollNo x \<le> rollNo y)"
proof -
  define n where "n = length xs"
  define zs where "zs = move_median_to_first xs 0 1 (length xs div 2) (length xs - 1)"
  from assms have d: "1 \<noteq> length xs div 2 \<and> 1 \<noteq> length xs - 1 \<and> length xs div 2 \<noteq> length xs - 1"
    by auto
  from move_median_to_first_cases [of 1 "length xs div 2" "length xs - 1" xs 0] d
  obtain m s where ms: "{m, s} \<subseteq> {1, length xs div 2, length xs - 1}" "m \<noteq> s"
    "zs = iter_swap xs 0 m" "rollNo (xs ! m) \<le> rollNo (xs ! s)"
    unfolding zs_def by blast
  from ms(1) assms have r: "1 \<le> m" "m < n" "1 \<le> s" "s < n" by (auto simp: n_def)
  have pos: "0 < length xs" using assms by (cases xs) simp_all
  have len: "length zs = n" unfolding ms(3) n_def by (rule length_iter_swap)
  have ms': "mset zs = mset xs" unfolding ms(3) using pos r(2) [unfolded n_def] by (rule mset_iter_swap)
  have z0: "zs ! 0 = xs ! m" "zs ! s = xs ! s"
    unfolding ms(3)
    using r ms(2) nth_iter_swap [OF pos r(2) [unfolded n_def] pos]
      nth_iter_swap [OF pos r(2) [unfolded n_def] r(4) [unfolded n_def]]
    by simp_all
  have "\<exists>ys cut'. unguarded_partition zs 1 n = Some (ys, cut') \<and>
           mset ys = mset zs \<and> 1 \<le> cut' \<and> cut' < length zs \<and> ys ! 0 = zs ! 0 \<and>
           (\<forall>k. k < cut' \<longrightarrow> rollNo (ys ! k) \<le> rollNo (ys ! 0)) \<and>
           (\<forall>k. cut' \<le> k \<and> k < length zs \<longrightarrow> rollNo (ys ! 0) \<le> rollNo (ys ! k))"
    by (rule unguarded_partition_correct [where s = s]) (use r ms(4) in \<open>simp_all add: len z0\<close>)
  then obtain ys cut' where p: "unguarded_partition zs 1 n = Some (ys, cut')"
    "mset ys = mset zs" "1 \<le> cut'" "cut' < n"
    "\<forall>k. k < cut' \<longrightarrow> rollNo (ys ! k) \<le> rollNo (ys ! 0)"
    "\<forall>k. cut' \<le> k \<and> k < n \<longrightarrow> rollNo (ys ! 0) \<le> rollNo (ys ! k)"
    by (auto simp: len)
  from p(2) have ly: "length ys = n" using len by (metis size_mset)
  have "rollNo x \<le> rollNo y" if "x \<in> set (take cut' ys)" "y \<in> set (drop cut' ys)" for x y
  proof -
    from that(1) obtain i where i: "i < cut'" "x = ys ! i"
      using p(4) ly by (auto simp: in_set_conv_nth)
    from that(2) obtain j where j: "cut' \<le> j" "j < n" "y = ys ! j"
      using ly by (auto simp: in_set_conv_nth) (metis le_add1 add.commute less_diff_conv)
    from p(5) i have "rollNo x \<le> rollNo (ys ! 0)" by simp
    also from p(6) j have "\<dots> \<le> rollNo y" by simp
    finally show ?thesis .
  qed
  moreover have "unguarded_partition_pivot xs = Some (ys, cut')"
    using p(1) unfolding unguarded_partition_pivot_def Let_def zs_def n_def .
  ultimately show ?thesis using p ms' by (simp add: n_def)
qed

subsection \<open>The heap sort\<close>

lemma parent_less: "0 < c \<Longrightarrow> parent_of c < c"
  by (simp add: parent_of_def)

lemma parent_le: "parent_of c \<le> c"
  by (simp add: parent_of_def)

lemma below_le: "below topIndex h \<Longrightarrow> topIndex \<le> h"
  by (induction rule: below.induct) (auto intro: le_trans parent_le)

lemma below_parent: "below topIndex h \<Longrightarrow> h \<noteq> topIndex \<Longrightarrow> below topIndex (parent_of h) \<and> 0 < h"
  by (cases rule: below.cases) auto

lemma mset_move:
  assumes "h < length xs" "c < length xs"
  shows "mset (xs[h := xs ! c, c := v]) = mset (xs[h := v])"
proof (cases "h = c")
  case True
  then show ?thesis by simp
next
  case False
  have "xs[h := xs ! c, c := v] = (xs[h := v])[c := (xs[h := v]) ! h, h := (xs[h := v]) ! c]"
    using assms False by (simp add: list_update_swap)
  moreover have "mset ((xs[h := v])[c := (xs[h := v]) ! h, h := (xs[h := v]) ! c]) = mset (xs[h := v])"
    by (rule mset_swap) (use assms in simp_all)
  ultimately show ?thesis by simp
qed

lemma hole_inv_down:
  assumes inv: "hole_inv xs topIndex len h" and c: "parent_of c = h" "0 < c" "c < len"
    and big: "\<forall>e. 0 < e \<and> e < len \<and> parent_of e = h \<longrightarrow> rollNo (xs ! e) \<le> rollNo (xs ! c)"
    and len: "len \<le> length xs"
  shows "hole_inv (xs[h := xs ! c]) topIndex len c"
proof -
  let ?xs = "xs[h := xs ! c]"
  from inv have b: "below topIndex h" and hl: "h < len"
    and e1: "\<And>e. 0 < e \<Longrightarrow> e < len \<Longrightarrow> topIndex \<le> parent_of e \<Longrightarrow> parent_of e \<noteq> h \<Longrightarrow> e \<noteq> h \<Longrightarrow>
               rollNo (xs ! e) \<le> rollNo (xs ! parent_of e)"
    and e2: "\<And>e. h \<noteq> topIndex \<Longrightarrow> 0 < e \<Longrightarrow> e < len \<Longrightarrow> parent_of e = h \<Longrightarrow>
               rollNo (xs ! e) \<le> rollNo (xs ! parent_of h)"
    by (simp_all add: hole_inv_def)
  from c have hc: "h < c" using parent_less [of c] by simp
  from b have th: "topIndex \<le> h" by (rule below_le)
  have hlen: "h < length xs" using hl len by simp
  have nth: "?xs ! i = (if i = h then xs ! c else xs ! i)" for i
    using hlen by (simp add: nth_list_update)
  have p1: "rollNo (?xs ! e) \<le> rollNo (?xs ! parent_of e)"
    if e: "0 < e" "e < len" "topIndex \<le> parent_of e" "parent_of e \<noteq> c" "e \<noteq> c" for e
  proof -
    consider (hole) "e = h" | (sib) "e \<noteq> h" "parent_of e = h" | (other) "e \<noteq> h" "parent_of e \<noteq> h"
      by blast
    then show ?thesis
    proof cases
      case hole
      with e have ph: "parent_of h < h" "topIndex \<le> parent_of h" using parent_less [of h] by simp_all
      then have "h \<noteq> topIndex" by simp
      from e2 [OF this c(2,3,1)] hole ph show ?thesis by (simp add: nth)
    next
      case sib
      with big e show ?thesis by (simp add: nth)
    next
      case other
      with e1 [OF e(1,2,3)] show ?thesis by (simp add: nth)
    qed
  qed
  have p2: "rollNo (?xs ! g) \<le> rollNo (?xs ! parent_of c)"
    if g: "0 < g" "g < len" "parent_of g = c" for g
  proof -
    from g have cg: "c < g" using parent_less [of g] by simp
    with hc have gh: "g \<noteq> h" by simp
    have "rollNo (xs ! g) \<le> rollNo (xs ! parent_of g)"
      using g th hc gh by (intro e1) simp_all
    with g gh c show ?thesis by (simp add: nth)
  qed
  from b c have "below topIndex c" by (auto intro: below.child)
  with c p1 p2 show ?thesis by (simp add: hole_inv_def)
qed

lemma hole_inv_up:
  assumes inv: "hole_inv xs topIndex len h" and ne: "h \<noteq> topIndex"
    and lt: "rollNo (xs ! parent_of h) < rollNo v"
    and vb: "\<forall>e. 0 < e \<and> e < len \<and> parent_of e = h \<longrightarrow> rollNo (xs ! e) \<le> rollNo v"
    and len: "len \<le> length xs"
  shows "hole_inv (xs[h := xs ! parent_of h]) topIndex len (parent_of h) \<and>
         (\<forall>e. 0 < e \<and> e < len \<and> parent_of e = parent_of h \<longrightarrow>
              rollNo (xs[h := xs ! parent_of h] ! e) \<le> rollNo v)"
proof -
  let ?p = "parent_of h"
  let ?xs = "xs[h := xs ! ?p]"
  from inv have b: "below topIndex h" and hl: "h < len"
    and e1: "\<And>e. 0 < e \<Longrightarrow> e < len \<Longrightarrow> topIndex \<le> parent_of e \<Longrightarrow> parent_of e \<noteq> h \<Longrightarrow> e \<noteq> h \<Longrightarrow>
               rollNo (xs ! e) \<le> rollNo (xs ! parent_of e)"
    and e2: "\<And>e. 0 < e \<Longrightarrow> e < len \<Longrightarrow> parent_of e = h \<Longrightarrow>
               rollNo (xs ! e) \<le> rollNo (xs ! ?p)"
    using ne by (simp_all add: hole_inv_def)
  from below_parent [OF b ne] have bp: "below topIndex ?p" and h0: "0 < h" by simp_all
  then have tp: "topIndex \<le> ?p" and ph: "?p < h" using below_le parent_less by simp_all
  have hlen: "h < length xs" using hl len by simp
  have nth: "?xs ! i = (if i = h then xs ! ?p else xs ! i)" for i
    using hlen by (simp add: nth_list_update)
  have up: "rollNo (xs ! ?p) \<le> rollNo (xs ! parent_of ?p)" if "?p \<noteq> topIndex"
  proof -
    from below_parent [OF bp that] have "below topIndex (parent_of ?p)" "0 < ?p" by simp_all
    then have "topIndex \<le> parent_of ?p" "parent_of ?p < ?p" using below_le parent_less by simp_all
    with ph hl \<open>0 < ?p\<close> show ?thesis by (intro e1) simp_all
  qed
  have p1: "rollNo (?xs ! e) \<le> rollNo (?xs ! parent_of e)"
    if e: "0 < e" "e < len" "topIndex \<le> parent_of e" "parent_of e \<noteq> ?p" "e \<noteq> ?p" for e
  proof (cases "parent_of e = h")
    case True
    then have "e \<noteq> h" using parent_less [OF e(1)] by simp
    with e2 [OF e(1,2) True] True show ?thesis by (simp add: nth)
  next
    case False
    from e(4) have "e \<noteq> h" by auto
    with e1 [OF e(1,2,3) False] False show ?thesis by (simp add: nth)
  qed
  have sib: "rollNo (?xs ! e) \<le> rollNo (xs ! ?p)" if e: "0 < e" "e < len" "parent_of e = ?p" for e
  proof (cases "e = h")
    case True
    then show ?thesis by (simp add: nth)
  next
    case False
    with e ph tp have "rollNo (xs ! e) \<le> rollNo (xs ! parent_of e)" by (intro e1) simp_all
    with False e show ?thesis by (simp add: nth)
  qed
  have p2: "rollNo (?xs ! e) \<le> rollNo (?xs ! parent_of ?p)"
    if "?p \<noteq> topIndex" "0 < e" "e < len" "parent_of e = ?p" for e
  proof -
    have "parent_of ?p \<noteq> h" using parent_le [of ?p] ph by simp
    with sib [OF that(2,3,4)] up [OF that(1)] show ?thesis by (simp add: nth)
  qed
  have p3: "rollNo (?xs ! e) \<le> rollNo v" if "0 < e" "e < len" "parent_of e = ?p" for e
    using sib [OF that] lt by simp
  from bp ph hl p1 p2 p3 show ?thesis by (simp add: hole_inv_def)
qed

lemma hole_inv_fill:
  assumes inv: "hole_inv xs topIndex len h"
    and stop: "h = topIndex \<or> \<not> rollNo (xs ! parent_of h) < rollNo v"
    and vb: "\<forall>e. 0 < e \<and> e < len \<and> parent_of e = h \<longrightarrow> rollNo (xs ! e) \<le> rollNo v"
    and len: "len \<le> length xs"
  shows "heap_from (xs[h := v]) topIndex len"
proof -
  let ?xs = "xs[h := v]"
  from inv have b: "below topIndex h" and hl: "h < len"
    and e1: "\<And>e. 0 < e \<Longrightarrow> e < len \<Longrightarrow> topIndex \<le> parent_of e \<Longrightarrow> parent_of e \<noteq> h \<Longrightarrow> e \<noteq> h \<Longrightarrow>
               rollNo (xs ! e) \<le> rollNo (xs ! parent_of e)"
    by (simp_all add: hole_inv_def)
  have hlen: "h < length xs" using hl len by simp
  have nth: "?xs ! i = (if i = h then v else xs ! i)" for i
    using hlen by (simp add: nth_list_update)
  have "rollNo (?xs ! e) \<le> rollNo (?xs ! parent_of e)" if e: "0 < e" "e < len" "topIndex \<le> parent_of e" for e
  proof -
    consider (hole) "e = h" | (kid) "e \<noteq> h" "parent_of e = h" | (other) "e \<noteq> h" "parent_of e \<noteq> h"
      by blast
    then show ?thesis
    proof cases
      case hole
      with e have "parent_of h < h" "topIndex \<le> parent_of h" using parent_less [of h] by simp_all
      with stop hole show ?thesis by (simp add: nth)
    next
      case kid
      with vb e show ?thesis by (simp add: nth)
    next
      case other
      with e1 [OF e] show ?thesis by (simp add: nth)
    qed
  qed
  then show ?thesis by (simp add: heap_from_def)
qed

lemma push_heap_correct:
  assumes "hole_inv xs topIndex len h"
    and "\<forall>e. 0 < e \<and> e < len \<and> parent_of e = h \<longrightarrow> rollNo (xs ! e) \<le> rollNo v"
    and "len \<le> length xs"
  shows "heap_from (push_heap xs h topIndex v) topIndex len \<and>
         mset (push_heap xs h topIndex v) = mset (xs[h := v]) \<and>
         (\<forall>i. len \<le> i \<longrightarrow> push_heap xs h topIndex v ! i = xs ! i)"
  using assms
proof (induction xs h topIndex v rule: push_heap.induct)
  case (1 xs h topIndex v)
  from "1.prems"(1) have b: "below topIndex h" and hl: "h < len" by (simp_all add: hole_inv_def)
  from b have th: "topIndex \<le> h" by (rule below_le)
  show ?case
  proof (cases "topIndex < h \<and> by_roll (xs ! parent_of h) v")
    case True
    then have ne: "h \<noteq> topIndex" and lt: "rollNo (xs ! parent_of h) < rollNo v"
      by (simp_all add: by_roll_def)
    let ?xs = "xs[h := xs ! parent_of h]"
    from hole_inv_up [OF "1.prems"(1) ne lt "1.prems"(2,3)]
    have inv': "hole_inv ?xs topIndex len (parent_of h)"
      and vb': "\<forall>e. 0 < e \<and> e < len \<and> parent_of e = parent_of h \<longrightarrow> rollNo (?xs ! e) \<le> rollNo v"
      by simp_all
    have e: "push_heap xs h topIndex v = push_heap ?xs (parent_of h) topIndex v"
      using True by (subst push_heap.simps) (simp add: parent_of_def Let_def)
    have ih: "heap_from (push_heap ?xs (parent_of h) topIndex v) topIndex len \<and>
         mset (push_heap ?xs (parent_of h) topIndex v) = mset (?xs[parent_of h := v]) \<and>
         (\<forall>i. len \<le> i \<longrightarrow> push_heap ?xs (parent_of h) topIndex v ! i = ?xs ! i)"
      using True inv' vb' "1.prems"(3)
      by (intro "1.IH" [where x = "parent_of h"]) (simp_all add: parent_of_def)
    have ph: "parent_of h < length xs" using parent_le [of h] hl "1.prems"(3) by simp
    have m: "mset (?xs[parent_of h := v]) = mset (xs[h := v])"
      using hl "1.prems"(3) ph by (intro mset_move) simp_all
    from ih m hl show ?thesis by (simp add: e)
  next
    case False
    then have e: "push_heap xs h topIndex v = xs[h := v]"
      by (subst push_heap.simps) (auto simp: parent_of_def Let_def)
    from False th have stop: "h = topIndex \<or> \<not> rollNo (xs ! parent_of h) < rollNo v"
      by (auto simp: by_roll_def)
    from hole_inv_fill [OF "1.prems"(1) stop "1.prems"(2,3)] hl show ?thesis
      by (simp add: e)
  qed
qed

lemma children: "0 < e \<and> parent_of e = h \<longleftrightarrow> e = 2 * h + 1 \<or> e = 2 * h + 2"
  by (auto simp: parent_of_def)

lemma sift_hole_correct:
  assumes "hole_inv xs topIndex len h" "len \<le> length xs"
  shows "\<exists>ys h'. sift_hole xs h len = (ys, h') \<and> hole_inv ys topIndex len h' \<and>
           length ys = length xs \<and> (len - 1) div 2 \<le> h' \<and>
           (\<forall>i. len \<le> i \<longrightarrow> ys ! i = xs ! i) \<and>
           (\<forall>v. mset (ys[h' := v]) = mset (xs[h := v]))"
  using assms
proof (induction "len - h" arbitrary: xs h rule: less_induct)
  case less
  from less.prems(1) have hl: "h < len" by (simp add: hole_inv_def)
  show ?case
  proof (cases "h < (len - 1) div 2")
    case False
    then have "sift_hole xs h len = (xs, h)" by (subst sift_hole.simps) simp
    with False less.prems show ?thesis by simp
  next
    case True
    define c where "c = (if by_roll (xs ! (2 * (h + 1))) (xs ! (2 * (h + 1) - 1))
                         then 2 * (h + 1) - 1 else 2 * (h + 1))"
    let ?xs = "xs[h := xs ! c]"
    have e: "sift_hole xs h len = sift_hole ?xs c len"
      using True by (subst sift_hole.simps) (simp add: Let_def c_def)
    from True have r: "2 * h + 2 < len" by arith
    have c12: "c = 2 * h + 1 \<or> c = 2 * h + 2" by (auto simp: c_def)
    then have pc: "parent_of c = h" "0 < c" using children [of c h] by simp_all
    from c12 r have cl: "c < len" by auto
    have big: "\<forall>e. 0 < e \<and> e < len \<and> parent_of e = h \<longrightarrow> rollNo (xs ! e) \<le> rollNo (xs ! c)"
    proof (intro allI impI)
      fix e assume "0 < e \<and> e < len \<and> parent_of e = h"
      then have "e = 2 * h + 1 \<or> e = 2 * h + 2" using children [of e h] by simp
      then show "rollNo (xs ! e) \<le> rollNo (xs ! c)"
        by (auto simp: c_def by_roll_def)
    qed
    from hole_inv_down [OF less.prems(1) pc cl big less.prems(2)]
    have inv: "hole_inv ?xs topIndex len c" .
    from pc have hc: "h < c" using parent_less [of c] by simp
    have "\<exists>ys h'. sift_hole ?xs c len = (ys, h') \<and> hole_inv ys topIndex len h' \<and>
           length ys = length ?xs \<and> (len - 1) div 2 \<le> h' \<and>
           (\<forall>i. len \<le> i \<longrightarrow> ys ! i = ?xs ! i) \<and>
           (\<forall>v. mset (ys[h' := v]) = mset (?xs[c := v]))"
      using hc cl inv less.prems(2) by (intro less.hyps) simp_all
    then obtain ys h' where ih: "sift_hole ?xs c len = (ys, h')" "hole_inv ys topIndex len h'"
      "length ys = length xs" "(len - 1) div 2 \<le> h'"
      "\<forall>i. len \<le> i \<longrightarrow> ys ! i = ?xs ! i" "\<forall>v. mset (ys[h' := v]) = mset (?xs[c := v])"
      by auto
    have "mset (?xs[c := v]) = mset (xs[h := v])" for v
      using hl cl less.prems(2) by (intro mset_move) simp_all
    with ih(6) have m: "\<forall>v. mset (ys[h' := v]) = mset (xs[h := v])" by simp
    from ih(5) hl have fr: "\<forall>i. len \<le> i \<longrightarrow> ys ! i = xs ! i" by simp
    from ih(1-4) m fr show ?thesis by (simp add: e)
  qed
qed

lemma adjust_heap_correct:
  assumes "heap_from xs (Suc topIndex) len" "topIndex < len" "len \<le> length xs"
  shows "heap_from (adjust_heap xs topIndex len v) topIndex len \<and>
         mset (adjust_heap xs topIndex len v) = mset (xs[topIndex := v]) \<and>
         (\<forall>i. len \<le> i \<longrightarrow> adjust_heap xs topIndex len v ! i = xs ! i)"
proof -
  have "hole_inv xs topIndex len topIndex"
    using assms(1,2) by (auto simp: hole_inv_def heap_from_def intro: below.root)
  from sift_hole_correct [OF this assms(3)]
  obtain ys h' where s: "sift_hole xs topIndex len = (ys, h')" "hole_inv ys topIndex len h'"
    "length ys = length xs" "(len - 1) div 2 \<le> h'"
    "\<forall>i. len \<le> i \<longrightarrow> ys ! i = xs ! i" "\<forall>v. mset (ys[h' := v]) = mset (xs[topIndex := v])"
    by blast
  from s(2) have hl: "h' < len" by (simp add: hole_inv_def)
  have leny: "len \<le> length ys" using assms(3) s(3) by simp
  show ?thesis
  proof (cases "len mod 2 = 0 \<and> h' = (len - 2) div 2")
    case True
    define c where "c = 2 * (h' + 1) - 1"
    let ?zs = "ys[h' := ys ! c]"
    have a: "adjust_heap xs topIndex len v = push_heap ?zs c topIndex v"
      using True by (simp add: adjust_heap_def s(1) c_def)
    from True hl have c1: "c = len - 1" "0 < c" "c < len" "c = 2 * h' + 1"
      by (auto simp: c_def) arith+
    then have pc: "parent_of c = h'" using children [of c h'] by simp
    have big: "\<forall>e. 0 < e \<and> e < len \<and> parent_of e = h' \<longrightarrow> rollNo (ys ! e) \<le> rollNo (ys ! c)"
    proof (intro allI impI)
      fix e assume e: "0 < e \<and> e < len \<and> parent_of e = h'"
      then have "e = 2 * h' + 1 \<or> e = 2 * h' + 2" using children [of e h'] by simp
      with e c1 have "e = c" by auto
      then show "rollNo (ys ! e) \<le> rollNo (ys ! c)" by simp
    qed
    from hole_inv_down [OF s(2) pc c1(2,3) big leny]
    have inv: "hole_inv ?zs topIndex len c" .
    have leaf: "\<forall>e. 0 < e \<and> e < len \<and> parent_of e = c \<longrightarrow> rollNo (?zs ! e) \<le> rollNo v"
    proof (intro allI impI)
      fix e assume e: "0 < e \<and> e < len \<and> parent_of e = c"
      then have "e = 2 * c + 1 \<or> e = 2 * c + 2" using children [of e c] by simp
      with e c1 show "rollNo (?zs ! e) \<le> rollNo v" by auto
    qed
    from push_heap_correct [OF inv leaf] leny
    have p: "heap_from (push_heap ?zs c topIndex v) topIndex len"
      "mset (push_heap ?zs c topIndex v) = mset (?zs[c := v])"
      "\<forall>i. len \<le> i \<longrightarrow> push_heap ?zs c topIndex v ! i = ?zs ! i"
      by simp_all
    have "mset (?zs[c := v]) = mset (ys[h' := v])"
      using hl c1(3) leny by (intro mset_move) simp_all
    with p(2) s(6) have m: "mset (push_heap ?zs c topIndex v) = mset (xs[topIndex := v])"
      by simp
    from p(3) s(5) hl have "\<forall>i. len \<le> i \<longrightarrow> push_heap ?zs c topIndex v ! i = xs ! i"
      by simp
    with p(1) m show ?thesis by (simp add: a)
  next
    case False
    then have a: "adjust_heap xs topIndex len v = push_heap ys h' topIndex v"
      by (auto simp: adjust_heap_def s(1))
    have leaf: "\<forall>e. 0 < e \<and> e < len \<and> parent_of e = h' \<longrightarrow> rollNo (ys ! e) \<le> rollNo v"
    proof (intro allI impI)
      fix e assume e: "0 < e \<and> e < len \<and> parent_of e = h'"
      then have "e = 2 * h' + 1 \<or> e = 2 * h' + 2" using children [of e h'] by simp
      with e s(4) False have False by auto arith+
      then show "rollNo (ys ! e) \<le> rollNo v" ..
    qed
    from push_heap_correct [OF s(2) leaf leny] s(5,6) show ?thesis
      by (simp add: a)
  qed
qed

lemma make_heap_loop_correct:
  assumes "heap_from xs (Suc p) (length xs)" "p < length xs"
  shows "heap_from (make_heap_loop xs (length xs) p) 0 (length xs) \<and>
         mset (make_heap_loop xs (length xs) p) = mset xs"
  using assms
proof (induction p arbitrary: xs)
  case 0
  from adjust_heap_correct [OF "0.prems"(1,2) order_refl, of "xs ! 0"] show ?case
    by simp
next
  case (Suc p)
  let ?ys = "adjust_heap xs (Suc p) (length xs) (xs ! Suc p)"
  from adjust_heap_correct [OF Suc.prems(1,2) order_refl, of "xs ! Suc p"]
  have a: "heap_from ?ys (Suc p) (length xs)" "mset ?ys = mset xs"
    by simp_all
  from a(2) have len: "length ?ys = length xs" by (metis size_mset)
  have "heap_from (make_heap_loop ?ys (length ?ys) p) 0 (length ?ys) \<and>
         mset (make_heap_loop ?ys (length ?ys) p) = mset ?ys"
    using a(1) Suc.prems(2) by (intro Suc.IH) (simp_all add: len)
  with a(2) show ?case by (simp add: len)
qed

lemma make_heap_correct:
  "heap_from (make_heap xs) 0 (length xs) \<and> mset (make_heap xs) = mset xs"
proof (cases "length xs < 2")
  case True
  then have "heap_from xs 0 (length xs)" by (auto simp: heap_from_def)
  with True show ?thesis by (simp add: make_heap_def)
next
  case False
  have "heap_from xs (Suc ((length xs - 2) div 2)) (length xs)"
    by (auto simp: heap_from_def parent_of_def)
  from make_heap_loop_correct [OF this] False show ?thesis
    by (simp add: make_heap_def)
qed

lemma heap_root_max:
  assumes "heap_from xs 0 len" "i < len"
  shows "rollNo (xs ! i) \<le> rollNo (xs ! 0)"
  using assms(2)
proof (induction i rule: less_induct)
  case (less i)
  show ?case
  proof (cases "i = 0")
    case True
    then show ?thesis by simp
  next
    case False
    then have p: "parent_of i < i" using parent_less by simp
    from assms(1) False less.prems have "rollNo (xs ! i) \<le> rollNo (xs ! parent_of i)"
      by (simp add: heap_from_def)
    also from less.IH [OF p] p less.prems have "\<dots> \<le> rollNo (xs ! 0)" by simp
    finally show ?thesis .
  qed
qed

lemma sort_heap_correct:
  assumes "heap_from xs 0 l" "l \<le> length xs" "sorted (map rollNo (drop l xs))"
    and "\<forall>x\<in>set (take l xs). \<forall>y\<in>set (drop l xs). rollNo x \<le> rollNo y"
  shows "sorted (map rollNo (sort_heap xs l)) \<and> mset (sort_heap xs l) = mset xs"
  using assms
proof (induction l arbitrary: xs)
  case 0
  then show ?case by (subst (1 2) sort_heap.simps) simp
next
  case (Suc k)
  show ?case
  proof (cases "k = 0")
    case True
    have "sorted (map rollNo (take 1 xs @ drop 1 xs))"
      unfolding map_append sorted_append
      using Suc.prems(3,4) True by (cases xs) auto
    with True show ?thesis by (subst (1 2) sort_heap.simps) simp
  next
    case False
    let ?xs1 = "xs[k := xs ! 0]"
    let ?xs2 = "adjust_heap ?xs1 0 k (xs ! k)"
    have e: "sort_heap xs (Suc k) = sort_heap ?xs2 k"
      using False by (subst sort_heap.simps) (simp add: pop_heap_def)
    from Suc.prems(2) have kl: "k < length xs" by simp
    have h1: "heap_from ?xs1 (Suc 0) k"
      unfolding heap_from_def
    proof (intro allI impI)
      fix c assume c: "0 < c \<and> c < k \<and> Suc 0 \<le> parent_of c"
      then have "parent_of c < c" using parent_less by simp
      with c Suc.prems(1) show "rollNo (?xs1 ! c) \<le> rollNo (?xs1 ! parent_of c)"
        by (simp add: heap_from_def)
    qed
    from adjust_heap_correct [OF h1, of "xs ! k"] False kl
    have a: "heap_from ?xs2 0 k" "mset ?xs2 = mset (?xs1[0 := xs ! k])"
      "\<forall>i. k \<le> i \<longrightarrow> ?xs2 ! i = ?xs1 ! i"
      by simp_all
    have "0 < length xs" using kl by (cases xs) simp_all
    from mset_swap [OF this kl] a(2) have m: "mset ?xs2 = mset xs"
      by simp
    then have len: "length ?xs2 = length xs" by (metis size_mset)
    have dr: "drop k ?xs2 = xs ! 0 # drop (Suc k) xs"
    proof -
      have "drop k ?xs2 = ?xs2 ! k # drop (Suc k) ?xs2"
        using kl len by (simp add: Cons_nth_drop_Suc)
      moreover have "?xs2 ! k = xs ! 0" using a(3) kl by simp
      moreover have "drop (Suc k) ?xs2 = drop (Suc k) xs"
        using a(3) len by (intro nth_equalityI) simp_all
      ultimately show ?thesis by simp
    qed
    have x0: "xs ! 0 \<in> set (take (Suc k) xs)"
      using kl by (cases xs) auto
    have "mset (take k ?xs2) + mset (drop k ?xs2) = mset (take (Suc k) xs) + mset (drop (Suc k) xs)"
      using m by (simp only: mset_append [symmetric] append_take_drop_id)
    then have "add_mset (xs ! 0) (mset (take k ?xs2)) = mset (take (Suc k) xs)"
      by (simp add: dr)
    then have sub: "set (take k ?xs2) \<subseteq> set (take (Suc k) xs)"
      by (metis set_mset_mset set_mset_add_mset_insert subset_insertI)
    have root: "rollNo x \<le> rollNo (xs ! 0)" if "x \<in> set (take (Suc k) xs)" for x
    proof -
      from that obtain i where "i < Suc k" "x = xs ! i"
        using kl by (auto simp: in_set_conv_nth)
      with heap_root_max [OF Suc.prems(1)] show ?thesis by simp
    qed
    have s: "sorted (map rollNo (drop k ?xs2))"
      using Suc.prems(3,4) x0 by (simp add: dr)
    have cr: "\<forall>x\<in>set (take k ?xs2). \<forall>y\<in>set (drop k ?xs2). rollNo x \<le> rollNo y"
      using sub root Suc.prems(4) by (auto simp: dr)
    have "sorted (map rollNo (sort_heap ?xs2 k)) \<and> mset (sort_heap ?xs2 k) = mset ?xs2"
      using a(1) _ s cr by (rule Suc.IH) (use kl len in simp)
    with m show ?thesis by (simp add: e)
  qed
qed

lemma partial_sort_correct:
  "sorted (map rollNo (partial_sort xs)) \<and> mset (partial_sort xs) = mset xs"
proof -
  from make_heap_correct [of xs] have h: "heap_from (make_heap xs) 0 (length xs)"
    and m: "mset (make_heap xs) = mset xs" by simp_all
  from m have len: "length (make_heap xs) = length xs" by (metis size_mset)
  from sort_heap_correct [of "make_heap xs" "length xs"] h m len show ?thesis
    by (simp add: partial_sort_def)
qed

subsection \<open>The introsort\<close>

lemma exists_min: "xs \<noteq> [] \<Longrightarrow> \<exists>p\<in>set xs. \<forall>v\<in>set xs. rollNo p \<le> rollNo v"
proof (induction xs)
  case Nil
  then show ?case by simp
next
  case (Cons x xs)
  show ?case
  proof (cases "xs = []")
    case True
    then show ?thesis by simp
  next
    case False
    with Cons.IH obtain p where p: "p \<in> set xs" "\<forall>v\<in>set xs. rollNo p \<le> rollNo v" by blast
    show ?thesis
    proof (cases "rollNo x \<le> rollNo p")
      case True
      with p(2) have "\<forall>v\<in>set (x # xs). rollNo x \<le> rollNo v" by auto
      then show ?thesis by (intro bexI [of _ x]) simp_all
    next
      case False
      with p(2) have "\<forall>v\<in>set (x # xs). rollNo p \<le> rollNo v" by auto
      with p(1) show ?thesis by (intro bexI [of _ p]) simp_all
    qed
  qed
qed

lemma introsort_loop_short: "length xs \<le> 16 \<Longrightarrow> introsort_loop xs depth_limit = Some xs"
  by (cases depth_limit) simp_all

lemma introsort_loop_correct:
  "\<exists>ys. introsort_loop xs depth_limit = Some ys \<and> mset ys = mset xs \<and>
        (16 < length xs \<longrightarrow> (\<exists>p\<in>set (take 16 ys). \<forall>v\<in>set ys. rollNo p \<le> rollNo v))"
proof (induction depth_limit arbitrary: xs)
  case 0
  show ?case
  proof (cases "16 < length xs")
    case False
    then show ?thesis by simp
  next
    case True
    let ?ys = "partial_sort xs"
    from partial_sort_correct [of xs] have s: "sorted (map rollNo ?ys)" and m: "mset ?ys = mset xs"
      by simp_all
    from m have len: "length ?ys = length xs" by (metis size_mset)
    with True obtain y ys' where c: "?ys = y # ys'" by (cases ?ys) auto
    with s have "\<forall>v\<in>set ?ys. rollNo y \<le> rollNo v" by auto
    moreover have "y \<in> set (take 16 ?ys)" by (simp add: c)
    ultimately show ?thesis using True m by auto
  qed
next
  case (Suc d)
  show ?case
  proof (cases "16 < length xs")
    case False
    then show ?thesis by simp
  next
    case True
    from unguarded_partition_pivot_correct [OF True]
    obtain zs cut' where p: "unguarded_partition_pivot xs = Some (zs, cut')"
      "mset zs = mset xs" "1 \<le> cut'" "cut' < length xs"
      "\<forall>x\<in>set (take cut' zs). \<forall>y\<in>set (drop cut' zs). rollNo x \<le> rollNo y"
      by blast
    from p(2) have len: "length zs = length xs" by (metis size_mset)
    from Suc.IH [of "drop cut' zs"] obtain U where
      U: "introsort_loop (drop cut' zs) d = Some U" "mset U = mset (drop cut' zs)"
      by blast
    from Suc.IH [of "take cut' zs"] obtain L where
      L: "introsort_loop (take cut' zs) d = Some L" "mset L = mset (take cut' zs)"
      "16 < length (take cut' zs) \<longrightarrow> (\<exists>p\<in>set (take 16 L). \<forall>v\<in>set L. rollNo p \<le> rollNo v)"
      by blast
    have res: "introsort_loop xs (Suc d) = Some (L @ U)"
      using True by (simp add: p(1) U(1) L(1))
    have "mset (take cut' zs @ drop cut' zs) = mset zs" by simp
    then have "mset (take cut' zs) + mset (drop cut' zs) = mset xs"
      by (simp only: mset_append p(2))
    then have m: "mset (L @ U) = mset xs"
      using L(2) U(2) by simp
    from L(2) have lenL: "length L = cut'" using p(4) len by (metis size_mset length_take min.absorb2 less_imp_le)
    from L(2) have setL: "set L = set (take cut' zs)" by (metis set_mset_mset)
    from U(2) have setU: "set U = set (drop cut' zs)" by (metis set_mset_mset)
    have "\<exists>p\<in>set (take 16 L). \<forall>v\<in>set L. rollNo p \<le> rollNo v"
    proof (cases "16 < length (take cut' zs)")
      case True
      with L(3) show ?thesis by simp
    next
      case False
      then have short: "length L \<le> 16" using lenL p(4) len by simp
      from lenL p(3) have "L \<noteq> []" by auto
      from exists_min [OF this] short show ?thesis by simp
    qed
    then obtain q where q: "q \<in> set (take 16 L)" "\<forall>v\<in>set L. rollNo q \<le> rollNo v" by blast
    from q(1) have qL: "q \<in> set L" by (rule in_set_takeD)
    have "rollNo q \<le> rollNo v" if "v \<in> set (L @ U)" for v
    proof (cases "v \<in> set L")
      case True
      with q(2) show ?thesis by simp
    next
      case False
      with that have "v \<in> set (drop cut' zs)" by (simp add: setU)
      with qL p(5) show ?thesis by (simp add: setL)
    qed
    moreover from q(1) have "q \<in> set (take 16 (L @ U))" by simp
    ultimately show ?thesis using res m by auto
  qed
qed

lemma std_sort_correct:
  "\<exists>ys. std_sort xs = Some (sort_key rollNo ys) \<and> mset ys = mset xs \<and>
        (length xs \<le> 16 \<longrightarrow> ys = xs)"
proof (cases "xs = []")
  case True
  then show ?thesis by (simp add: std_sort_def)
next
  case False
  from introsort_loop_correct [of xs "2 * lg (length xs)"]
  obtain ys where ys: "introsort_loop xs (2 * lg (length xs)) = Some ys" "mset ys = mset xs"
    "16 < length xs \<longrightarrow> (\<exists>p\<in>set (take 16 ys). \<forall>v\<in>set ys. rollNo p \<le> rollNo v)"
    by blast
  from ys(2) have len: "length ys = length xs" by (metis size_mset)
  have "final_insertion_sort ys = Some (sort_key rollNo ys)"
    by (rule final_insertion_sort_sort_key) (use ys(3) len in auto)
  moreover have "ys = xs" if "length xs \<le> 16"
    using ys(1) introsort_loop_short [OF that] by simp
  ultimately show ?thesis using False ys(1,2) by (intro exI [of _ ys]) (simp add: std_sort_def)
qed

text \<open>
  C3, as amended. \<^verbatim>\<open>sortStudents\<close> returns for every roster, and the result holds the
  same records in ascending order of roll number. In a roster of at most 16 records the
  records with the same roll number keep their order.
\<close>

theorem sortStudents_ascending:
  "\<exists>students'. sortStudents students = Some students' \<and>
      mset students' = mset students \<and> sorted (map rollNo students') \<and>
      (length students \<le> 16 \<longrightarrow> keeps_order_of_ties students students')"
proof -
  from std_sort_correct [of students] obtain ys where
    ys: "std_sort students = Some (sort_key rollNo ys)" "mset ys = mset students"
    "length students \<le> 16 \<longrightarrow> ys = students"
    by blast
  have "keeps_order_of_ties students (sort_key rollNo ys)" if "length students \<le> 16"
    using that ys(3) by (simp add: keeps_order_of_ties_def sort_key_stable)
  with ys(1,2) show ?thesis by (simp add: sortStudents_def)
qed

theorem sortStudents_ascending_witness:
  "sortStudents
     [fresh_Student\<lparr>name := ''B'', rollNo := 2\<rparr>, fresh_Student\<lparr>name := ''A'', rollNo := 1\<rparr>,
      fresh_Student\<lparr>name := ''C'', rollNo := 1\<rparr>, fresh_Student\<lparr>name := ''D'', rollNo := 2\<rparr>] =
   Some
     [fresh_Student\<lparr>name := ''A'', rollNo := 1\<rparr>, fresh_Student\<lparr>name := ''C'', rollNo := 1\<rparr>,
      fresh_Student\<lparr>name := ''B'', rollNo := 2\<rparr>, fresh_Student\<lparr>name := ''D'', rollNo := 2\<rparr>] \<and>
   keeps_order_of_ties
     [fresh_Student\<lparr>name := ''B'', rollNo := 2\<rparr>, fresh_Student\<lparr>name := ''A'', rollNo := 1\<rparr>,
      fresh_Student\<lparr>name := ''C'', rollNo := 1\<rparr>, fresh_Student\<lparr>name := ''D'', rollNo := 2\<rparr>]
     [fresh_Student\<lparr>name := ''A'', rollNo := 1\<rparr>, fresh_Student\<lparr>name := ''C'', rollNo := 1\<rparr>,
      fresh_Student\<lparr>name := ''B'', rollNo := 2\<rparr>, fresh_Student\<lparr>name := ''D'', rollNo := 2\<rparr>]"
proof -
  have run: "sortStudents
     [fresh_Student\<lparr>name := ''B'', rollNo := 2\<rparr>, fresh_Student\<lparr>name := ''A'', rollNo := 1\<rparr>,
      fresh_Student\<lparr>name := ''C'', rollNo := 1\<rparr>, fresh_Student\<lparr>name := ''D'', rollNo := 2\<rparr>] =
   Some
     [fresh_Student\<lparr>name := ''A'', rollNo := 1\<rparr>, fresh_Student\<lparr>name := ''C'', rollNo := 1\<rparr>,
      fresh_Student\<lparr>name := ''B'', rollNo := 2\<rparr>, fresh_Student\<lparr>name := ''D'', rollNo := 2\<rparr>]"
    by code_simp
  from sortStudents_ascending [of
      "[fresh_Student\<lparr>name := ''B'', rollNo := 2\<rparr>, fresh_Student\<lparr>name := ''A'', rollNo := 1\<rparr>,
        fresh_Student\<lparr>name := ''C'', rollNo := 1\<rparr>, fresh_Student\<lparr>name := ''D'', rollNo := 2\<rparr>]"]
  show ?thesis
    unfolding run by simp
qed

text \<open>
  C3 as stated fails from 17 records on. Take the records A to Q, all with roll number 1.
  The range is longer than 16, so the introsort makes a partition step: the median of the
  second, the middle and the last record goes to the front (I changes places with A) and
  the two scans, which stop at every record of the pivot's roll number, exchange the
  records pairwise from both ends. The insertion sort then moves nothing.
\<close>

theorem sortStudents_ties_counterexample:
  "sortStudents
     [fresh_Student\<lparr>name := ''A'', rollNo := 1\<rparr>, fresh_Student\<lparr>name := ''B'', rollNo := 1\<rparr>,
      fresh_Student\<lparr>name := ''C'', rollNo := 1\<rparr>, fresh_Student\<lparr>name := ''D'', rollNo := 1\<rparr>,
      fresh_Student\<lparr>name := ''E'', rollNo := 1\<rparr>, fresh_Student\<lparr>name := ''F'', rollNo := 1\<rparr>,
      fresh_Student\<lparr>name := ''G'', rollNo := 1\<rparr>, fresh_Student\<lparr>name := ''H'', rollNo := 1\<rparr>,
      fresh_Student\<lparr>name := ''I'', rollNo := 1\<rparr>, fresh_Student\<lparr>name := ''J'', rollNo := 1\<rparr>,
      fresh_Student\<lparr>name := ''K'', rollNo := 1\<rparr>, fresh_Student\<lparr>name := ''L'', rollNo := 1\<rparr>,
      fresh_Student\<lparr>name := ''M'', rollNo := 1\<rparr>, fresh_Student\<lparr>name := ''N'', rollNo := 1\<rparr>,
      fresh_Student\<lparr>name := ''O'', rollNo := 1\<rparr>, fresh_Student\<lparr>name := ''P'', rollNo := 1\<rparr>,
      fresh_Student\<lparr>name := ''Q'', rollNo := 1\<rparr>] =
   Some
     [fresh_Student\<lparr>name := ''I'', rollNo := 1\<rparr>, fresh_Student\<lparr>name := ''Q'', rollNo := 1\<rparr>,
      fresh_Student\<lparr>name := ''P'', rollNo := 1\<rparr>, fresh_Student\<lparr>name := ''O'', rollNo := 1\<rparr>,
      fresh_Student\<lparr>name := ''N'', rollNo := 1\<rparr>, fresh_Student\<lparr>name := ''M'', rollNo := 1\<rparr>,
      fresh_Student\<lparr>name := ''L'', rollNo := 1\<rparr>, fresh_Student\<lparr>name := ''K'', rollNo := 1\<rparr>,
      fresh_Student\<lparr>name := ''J'', rollNo := 1\<rparr>, fresh_Student\<lparr>name := ''A'', rollNo := 1\<rparr>,
      fresh_Student\<lparr>name := ''H'', rollNo := 1\<rparr>, fresh_Student\<lparr>name := ''G'', rollNo := 1\<rparr>,
      fresh_Student\<lparr>name := ''F'', rollNo := 1\<rparr>, fresh_Student\<lparr>name := ''E'', rollNo := 1\<rparr>,
      fresh_Student\<lparr>name := ''D'', rollNo := 1\<rparr>, fresh_Student\<lparr>name := ''C'', rollNo := 1\<rparr>,
      fresh_Student\<lparr>name := ''B'', rollNo := 1\<rparr>] \<and>
   \<not> keeps_order_of_ties
     [fresh_Student\<lparr>name := ''A'', rollNo := 1\<rparr>, fresh_Student\<lparr>name := ''B'', rollNo := 1\<rparr>,
      fresh_Student\<lparr>name := ''C'', rollNo := 1\<rparr>, fresh_Student\<lparr>name := ''D'', rollNo := 1\<rparr>,
      fresh_Student\<lparr>name := ''E'', rollNo := 1\<rparr>, fresh_Student\<lparr>name := ''F'', rollNo := 1\<rparr>,
      fresh_Student\<lparr>name := ''G'', rollNo := 1\<rparr>, fresh_Student\<lparr>name := ''H'', rollNo := 1\<rparr>,
      fresh_Student\<lparr>name := ''I'', rollNo := 1\<rparr>, fresh_Student\<lparr>name := ''J'', rollNo := 1\<rparr>,
      fresh_Student\<lparr>name := ''K'', rollNo := 1\<rparr>, fresh_Student\<lparr>name := ''L'', rollNo := 1\<rparr>,
      fresh_Student\<lparr>name := ''M'', rollNo := 1\<rparr>, fresh_Student\<lparr>name := ''N'', rollNo := 1\<rparr>,
      fresh_Student\<lparr>name := ''O'', rollNo := 1\<rparr>, fresh_Student\<lparr>name := ''P'', rollNo := 1\<rparr>,
      fresh_Student\<lparr>name := ''Q'', rollNo := 1\<rparr>]
     [fresh_Student\<lparr>name := ''I'', rollNo := 1\<rparr>, fresh_Student\<lparr>name := ''Q'', rollNo := 1\<rparr>,
      fresh_Student\<lparr>name := ''P'', rollNo := 1\<rparr>, fresh_Student\<lparr>name := ''O'', rollNo := 1\<rparr>,
      fresh_Student\<lparr>name := ''N'', rollNo := 1\<rparr>, fresh_Student\<lparr>name := ''M'', rollNo := 1\<rparr>,
      fresh_Student\<lparr>name := ''L'', rollNo := 1\<rparr>, fresh_Student\<lparr>name := ''K'', rollNo := 1\<rparr>,
      fresh_Student\<lparr>name := ''J'', rollNo := 1\<rparr>, fresh_Student\<lparr>name := ''A'', rollNo := 1\<rparr>,
      fresh_Student\<lparr>name := ''H'', rollNo := 1\<rparr>, fresh_Student\<lparr>name := ''G'', rollNo := 1\<rparr>,
      fresh_Student\<lparr>name := ''F'', rollNo := 1\<rparr>, fresh_Student\<lparr>name := ''E'', rollNo := 1\<rparr>,
      fresh_Student\<lparr>name := ''D'', rollNo := 1\<rparr>, fresh_Student\<lparr>name := ''C'', rollNo := 1\<rparr>,
      fresh_Student\<lparr>name := ''B'', rollNo := 1\<rparr>]"
proof -
  have run: "sortStudents
     [fresh_Student\<lparr>name := ''A'', rollNo := 1\<rparr>, fresh_Student\<lparr>name := ''B'', rollNo := 1\<rparr>,
      fresh_Student\<lparr>name := ''C'', rollNo := 1\<rparr>, fresh_Student\<lparr>name := ''D'', rollNo := 1\<rparr>,
      fresh_Student\<lparr>name := ''E'', rollNo := 1\<rparr>, fresh_Student\<lparr>name := ''F'', rollNo := 1\<rparr>,
      fresh_Student\<lparr>name := ''G'', rollNo := 1\<rparr>, fresh_Student\<lparr>name := ''H'', rollNo := 1\<rparr>,
      fresh_Student\<lparr>name := ''I'', rollNo := 1\<rparr>, fresh_Student\<lparr>name := ''J'', rollNo := 1\<rparr>,
      fresh_Student\<lparr>name := ''K'', rollNo := 1\<rparr>, fresh_Student\<lparr>name := ''L'', rollNo := 1\<rparr>,
      fresh_Student\<lparr>name := ''M'', rollNo := 1\<rparr>, fresh_Student\<lparr>name := ''N'', rollNo := 1\<rparr>,
      fresh_Student\<lparr>name := ''O'', rollNo := 1\<rparr>, fresh_Student\<lparr>name := ''P'', rollNo := 1\<rparr>,
      fresh_Student\<lparr>name := ''Q'', rollNo := 1\<rparr>] =
   Some
     [fresh_Student\<lparr>name := ''I'', rollNo := 1\<rparr>, fresh_Student\<lparr>name := ''Q'', rollNo := 1\<rparr>,
      fresh_Student\<lparr>name := ''P'', rollNo := 1\<rparr>, fresh_Student\<lparr>name := ''O'', rollNo := 1\<rparr>,
      fresh_Student\<lparr>name := ''N'', rollNo := 1\<rparr>, fresh_Student\<lparr>name := ''M'', rollNo := 1\<rparr>,
      fresh_Student\<lparr>name := ''L'', rollNo := 1\<rparr>, fresh_Student\<lparr>name := ''K'', rollNo := 1\<rparr>,
      fresh_Student\<lparr>name := ''J'', rollNo := 1\<rparr>, fresh_Student\<lparr>name := ''A'', rollNo := 1\<rparr>,
      fresh_Student\<lparr>name := ''H'', rollNo := 1\<rparr>, fresh_Student\<lparr>name := ''G'', rollNo := 1\<rparr>,
      fresh_Student\<lparr>name := ''F'', rollNo := 1\<rparr>, fresh_Student\<lparr>name := ''E'', rollNo := 1\<rparr>,
      fresh_Student\<lparr>name := ''D'', rollNo := 1\<rparr>, fresh_Student\<lparr>name := ''C'', rollNo := 1\<rparr>,
      fresh_Student\<lparr>name := ''B'', rollNo := 1\<rparr>]"
    by code_simp
  have "\<not> keeps_order_of_ties
     [fresh_Student\<lparr>name := ''A'', rollNo := 1\<rparr>, fresh_Student\<lparr>name := ''B'', rollNo := 1\<rparr>,
      fresh_Student\<lparr>name := ''C'', rollNo := 1\<rparr>, fresh_Student\<lparr>name := ''D'', rollNo := 1\<rparr>,
      fresh_Student\<lparr>name := ''E'', rollNo := 1\<rparr>, fresh_Student\<lparr>name := ''F'', rollNo := 1\<rparr>,
      fresh_Student\<lparr>name := ''G'', rollNo := 1\<rparr>, fresh_Student\<lparr>name := ''H'', rollNo := 1\<rparr>,
      fresh_Student\<lparr>name := ''I'', rollNo := 1\<rparr>, fresh_Student\<lparr>name := ''J'', rollNo := 1\<rparr>,
      fresh_Student\<lparr>name := ''K'', rollNo := 1\<rparr>, fresh_Student\<lparr>name := ''L'', rollNo := 1\<rparr>,
      fresh_Student\<lparr>name := ''M'', rollNo := 1\<rparr>, fresh_Student\<lparr>name := ''N'', rollNo := 1\<rparr>,
      fresh_Student\<lparr>name := ''O'', rollNo := 1\<rparr>, fresh_Student\<lparr>name := ''P'', rollNo := 1\<rparr>,
      fresh_Student\<lparr>name := ''Q'', rollNo := 1\<rparr>]
     [fresh_Student\<lparr>name := ''I'', rollNo := 1\<rparr>, fresh_Student\<lparr>name := ''Q'', rollNo := 1\<rparr>,
      fresh_Student\<lparr>name := ''P'', rollNo := 1\<rparr>, fresh_Student\<lparr>name := ''O'', rollNo := 1\<rparr>,
      fresh_Student\<lparr>name := ''N'', rollNo := 1\<rparr>, fresh_Student\<lparr>name := ''M'', rollNo := 1\<rparr>,
      fresh_Student\<lparr>name := ''L'', rollNo := 1\<rparr>, fresh_Student\<lparr>name := ''K'', rollNo := 1\<rparr>,
      fresh_Student\<lparr>name := ''J'', rollNo := 1\<rparr>, fresh_Student\<lparr>name := ''A'', rollNo := 1\<rparr>,
      fresh_Student\<lparr>name := ''H'', rollNo := 1\<rparr>, fresh_Student\<lparr>name := ''G'', rollNo := 1\<rparr>,
      fresh_Student\<lparr>name := ''F'', rollNo := 1\<rparr>, fresh_Student\<lparr>name := ''E'', rollNo := 1\<rparr>,
      fresh_Student\<lparr>name := ''D'', rollNo := 1\<rparr>, fresh_Student\<lparr>name := ''C'', rollNo := 1\<rparr>,
      fresh_Student\<lparr>name := ''B'', rollNo := 1\<rparr>]"
    unfolding keeps_order_of_ties_def
    by (rule notI, drule spec [of _ 1]) (simp add: fresh_Student_def)
  with run show ?thesis by simp
qed

section \<open>Grade policy (C4)\<close>

text \<open>
  C4, as amended. The grade and the GPA are total functions of the percentage with the
  five buckets: at least 90 gives A and 4, from 80 to below 90 B and 3, from 70 to below
  80 C and 2, from 60 to below 70 D and 1, and everything below 60, negative values
  included, F and 0. A value above 100 is at least 90, so it gives A and 4.
\<close>

theorem grade_policy_buckets:
  "(90 \<le> p \<longrightarrow> strategy_calculateGrade p = CHR ''A'' \<and> strategy_calculateGPA p = 4) \<and>
   (80 \<le> p \<and> p < 90 \<longrightarrow> strategy_calculateGrade p = CHR ''B'' \<and> strategy_calculateGPA p = 3) \<and>
   (70 \<le> p \<and> p < 80 \<longrightarrow> strategy_calculateGrade p = CHR ''C'' \<and> strategy_calculateGPA p = 2) \<and>
   (60 \<le> p \<and> p < 70 \<longrightarrow> strategy_calculateGrade p = CHR ''D'' \<and> strategy_calculateGPA p = 1) \<and>
   (p < 60 \<longrightarrow> strategy_calculateGrade p = CHR ''F'' \<and> strategy_calculateGPA p = 0)"
  by (simp add: strategy_calculateGrade_def strategy_calculateGPA_def)

theorem grade_policy_buckets_witness:
  "strategy_calculateGrade 90 = CHR ''A'' \<and> strategy_calculateGPA 90 = 4 \<and>
   strategy_calculateGrade 80 = CHR ''B'' \<and> strategy_calculateGPA 80 = 3 \<and>
   strategy_calculateGrade 70 = CHR ''C'' \<and> strategy_calculateGPA 70 = 2 \<and>
   strategy_calculateGrade 60 = CHR ''D'' \<and> strategy_calculateGPA 60 = 1 \<and>
   strategy_calculateGrade (59999 / 1000) = CHR ''F'' \<and> strategy_calculateGPA (59999 / 1000) = 0 \<and>
   strategy_calculateGrade (- 5) = CHR ''F'' \<and> strategy_calculateGPA (- 5) = 0 \<and>
   strategy_calculateGrade 150 = CHR ''A'' \<and> strategy_calculateGPA 150 = 4"
  using grade_policy_buckets [of 90] grade_policy_buckets [of 80] grade_policy_buckets [of 70]
    grade_policy_buckets [of 60] grade_policy_buckets [of "59999 / 1000"]
    grade_policy_buckets [of "- 5"] grade_policy_buckets [of 150]
  by simp

text \<open>
  C4 as stated puts the values above 100 among those that give F and 0; 150 gives A and 4.
\<close>

theorem grade_above_100_counterexample:
  "(150::real) > 100 \<and> strategy_calculateGrade 150 \<noteq> CHR ''F'' \<and> strategy_calculateGPA 150 \<noteq> 0"
  by (simp add: strategy_calculateGrade_def strategy_calculateGPA_def)

section \<open>Deleting (C7)\<close>

lemma remove_if_filter: "remove_if p kept xs = kept @ filter (\<lambda>x. \<not> p x) xs"
  by (induction xs arbitrary: kept) auto

lemma length_filter_eq_iff: "(length (filter q xs) = length xs) = (\<forall>x\<in>set xs. q x)"
  by (metis filter_id_conv length_filter_less less_irrefl)

text \<open>
  C7. \<^verbatim>\<open>deleteStudent\<close> leaves exactly the records whose roll number differs from the
  one given, in their order; it reports a deletion when some record had that roll number,
  and otherwise reports that the student was not found and leaves the roster as it was.
\<close>

theorem deleteStudent_removes_all:
  "fst (deleteStudent roll students) = filter (\<lambda>s. rollNo s \<noteq> roll) students \<and>
   (snd (deleteStudent roll students) = StudentNotFound) = (\<forall>s\<in>set students. rollNo s \<noteq> roll) \<and>
   (snd (deleteStudent roll students) = StudentDeleted) = (\<exists>s\<in>set students. rollNo s = roll) \<and>
   ((\<forall>s\<in>set students. rollNo s \<noteq> roll) \<longrightarrow> deleteStudent roll students = (students, StudentNotFound))"
proof -
  let ?kept = "filter (\<lambda>s. rollNo s \<noteq> roll) students"
  have k: "remove_if (\<lambda>s. rollNo s = roll) [] students = ?kept"
    by (simp add: remove_if_filter)
  have len: "(length ?kept = length students) = (\<forall>s\<in>set students. rollNo s \<noteq> roll)"
    by (rule length_filter_eq_iff)
  show ?thesis
  proof (cases "\<forall>s\<in>set students. rollNo s \<noteq> roll")
    case True
    then have "?kept = students" by (simp add: filter_id_conv)
    with True show ?thesis by (auto simp: deleteStudent_def k Let_def)
  next
    case False
    with len have "length ?kept \<noteq> length students" by blast
    with False show ?thesis by (auto simp: deleteStudent_def k Let_def)
  qed
qed

theorem deleteStudent_removes_all_witness:
  "deleteStudent 1
     [fresh_Student\<lparr>name := ''A'', rollNo := 1\<rparr>, fresh_Student\<lparr>name := ''B'', rollNo := 2\<rparr>,
      fresh_Student\<lparr>name := ''C'', rollNo := 1\<rparr>]
   = ([fresh_Student\<lparr>name := ''B'', rollNo := 2\<rparr>], StudentDeleted) \<and>
   deleteStudent 7
     [fresh_Student\<lparr>name := ''A'', rollNo := 1\<rparr>, fresh_Student\<lparr>name := ''B'', rollNo := 2\<rparr>,
      fresh_Student\<lparr>name := ''C'', rollNo := 1\<rparr>]
   = ([fresh_Student\<lparr>name := ''A'', rollNo := 1\<rparr>, fresh_Student\<lparr>name := ''B'', rollNo := 2\<rparr>,
       fresh_Student\<lparr>name := ''C'', rollNo := 1\<rparr>], StudentNotFound)"
  using
    deleteStudent_removes_all [of 1
      "[fresh_Student\<lparr>name := ''A'', rollNo := 1\<rparr>, fresh_Student\<lparr>name := ''B'', rollNo := 2\<rparr>,
        fresh_Student\<lparr>name := ''C'', rollNo := 1\<rparr>]"]
    deleteStudent_removes_all [of 7
      "[fresh_Student\<lparr>name := ''A'', rollNo := 1\<rparr>, fresh_Student\<lparr>name := ''B'', rollNo := 2\<rparr>,
        fresh_Student\<lparr>name := ''C'', rollNo := 1\<rparr>]"]
  by (simp add: prod_eq_iff)

section \<open>Statistics (C8)\<close>

lemma foldl_add_sum: "foldl (\<lambda>t s. t + f s) a xs = a + sum_list (map f xs)"
  for a :: real
  by (induction xs arbitrary: a) auto

lemma foldl_bump_grade:
  "foldl (\<lambda>m s. bump_grade m (grade s)) m0 xs g =
     (let c = length (filter (\<lambda>s. grade s = g) xs)
      in case m0 g of None \<Rightarrow> (if c = 0 then None else Some c) | Some k \<Rightarrow> Some (k + c))"
  by (induction xs arbitrary: m0) (auto simp: bump_grade_def Let_def split: option.splits)

text \<open>
  C8. When no record has the class asked for, \<^verbatim>\<open>showStatistics\<close> reports that and
  computes nothing. Otherwise the count is the number of records of the class, which is
  not zero, every average is the sum over the records of the class divided by that count,
  and the grade distribution counts the records of the class.
\<close>

theorem showStatistics_class_only:
  "(filter (\<lambda>s. studentClass s = cls) students = [] \<longrightarrow>
      showStatistics cls students = Inl (NoStudentsInClass cls)) \<and>
   (filter (\<lambda>s. studentClass s = cls) students \<noteq> [] \<longrightarrow>
      (\<exists>st. showStatistics cls students = Inr st \<and>
         totalStudents st = length (filter (\<lambda>s. studentClass s = cls) students) \<and>
         0 < totalStudents st \<and>
         averagePercentage st =
           sum_list (map percentage (filter (\<lambda>s. studentClass s = cls) students))
             / real (totalStudents st) \<and>
         averageGPA4 st =
           sum_list (map gpa (filter (\<lambda>s. studentClass s = cls) students))
             / real (totalStudents st) \<and>
         averageGPA5 st = averageGPA4 st * 5 / 4 \<and>
         averageAttendance st =
           sum_list (map calculateAttendancePercentage
                       (filter (\<lambda>s. studentClass s = cls) students))
             / real (totalStudents st) \<and>
         (\<forall>g. gradeCount st g =
            (let c = length (filter (\<lambda>s. grade s = g)
                               (filter (\<lambda>s. studentClass s = cls) students))
             in if c = 0 then None else Some c))))"
  by (simp add: showStatistics_def Let_def foldl_add_sum foldl_bump_grade)

theorem showStatistics_class_only_witness:
  "showStatistics ''Y''
     [fresh_Student\<lparr>studentClass := ''X'', percentage := 90, grade := CHR ''A'', gpa := 4\<rparr>]
   = Inl (NoStudentsInClass ''Y'') \<and>
   (\<exists>st. showStatistics ''X''
      [fresh_Student\<lparr>studentClass := ''X'', percentage := 90, grade := CHR ''A'', gpa := 4\<rparr>,
       fresh_Student\<lparr>studentClass := ''Z'', percentage := 10\<rparr>,
       fresh_Student\<lparr>studentClass := ''X'', percentage := 50\<rparr>] = Inr st \<and>
      totalStudents st = 2 \<and> averagePercentage st = 70 \<and> averageGPA4 st = 2 \<and>
      averageGPA5 st = 5 / 2 \<and> averageAttendance st = 0 \<and>
      gradeCount st CHR ''A'' = Some 1 \<and> gradeCount st CHR ''F'' = Some 1 \<and>
      gradeCount st CHR ''B'' = None)"
  using
    showStatistics_class_only [of "''Y''"
      "[fresh_Student\<lparr>studentClass := ''X'', percentage := 90, grade := CHR ''A'', gpa := 4\<rparr>]"]
    showStatistics_class_only [of "''X''"
      "[fresh_Student\<lparr>studentClass := ''X'', percentage := 90, grade := CHR ''A'', gpa := 4\<rparr>,
        fresh_Student\<lparr>studentClass := ''Z'', percentage := 10\<rparr>,
        fresh_Student\<lparr>studentClass := ''X'', percentage := 50\<rparr>]"]
  by (auto simp: fresh_Student_def calculateAttendancePercentage_def Let_def)

section \<open>The topper (C9)\<close>

lemma topper_scan_none:
  "\<forall>s\<in>set ss. \<not> (studentClass s = cls \<and> percentage s > mx) \<Longrightarrow> topper_scan cls ss i mx t = t"
  by (induction ss arbitrary: i) auto

lemma topper_scan_some:
  "\<exists>s\<in>set ss. studentClass s = cls \<and> percentage s > mx \<Longrightarrow>
   \<exists>k < length ss. topper_scan cls ss i mx t = Some (i + k) \<and>
      studentClass (ss ! k) = cls \<and> percentage (ss ! k) > mx \<and>
      (\<forall>j < length ss. studentClass (ss ! j) = cls \<longrightarrow> percentage (ss ! j) \<le> percentage (ss ! k)) \<and>
      (\<forall>j < k. studentClass (ss ! j) = cls \<longrightarrow> percentage (ss ! j) < percentage (ss ! k))"
proof (induction ss arbitrary: i mx t)
  case Nil
  then show ?case by simp
next
  case (Cons s ss)
  show ?case
  proof (cases "studentClass s = cls \<and> percentage s > mx")
    case hit: True
    show ?thesis
    proof (cases "\<exists>u\<in>set ss. studentClass u = cls \<and> percentage u > percentage s")
      case True
      from Cons.IH [OF True, of "Suc i" "Some i"] obtain k where k: "k < length ss"
        "topper_scan cls ss (Suc i) (percentage s) (Some i) = Some (Suc i + k)"
        "studentClass (ss ! k) = cls" "percentage (ss ! k) > percentage s"
        "\<forall>j < length ss. studentClass (ss ! j) = cls \<longrightarrow> percentage (ss ! j) \<le> percentage (ss ! k)"
        "\<forall>j < k. studentClass (ss ! j) = cls \<longrightarrow> percentage (ss ! j) < percentage (ss ! k)"
        by blast
      have "\<forall>j < length (s # ss). studentClass ((s # ss) ! j) = cls \<longrightarrow>
              percentage ((s # ss) ! j) \<le> percentage ((s # ss) ! Suc k)"
        using k hit by (auto simp: nth_Cons split: nat.splits)
      moreover have "\<forall>j < Suc k. studentClass ((s # ss) ! j) = cls \<longrightarrow>
              percentage ((s # ss) ! j) < percentage ((s # ss) ! Suc k)"
        using k hit by (auto simp: nth_Cons split: nat.splits)
      ultimately show ?thesis
        using k hit by (intro exI [of _ "Suc k"]) auto
    next
      case False
      then have "topper_scan cls ss (Suc i) (percentage s) (Some i) = Some i"
        by (intro topper_scan_none) auto
      moreover have "\<forall>j < length (s # ss). studentClass ((s # ss) ! j) = cls \<longrightarrow>
              percentage ((s # ss) ! j) \<le> percentage s"
        using False by (auto simp: nth_Cons not_less split: nat.splits)
      ultimately show ?thesis
        using hit by (intro exI [of _ 0]) auto
    qed
  next
    case miss: False
    with Cons.prems have ex: "\<exists>u\<in>set ss. studentClass u = cls \<and> percentage u > mx"
      by auto
    from Cons.IH [OF ex, of "Suc i" t] obtain k where k: "k < length ss"
        "topper_scan cls ss (Suc i) mx t = Some (Suc i + k)"
        "studentClass (ss ! k) = cls" "percentage (ss ! k) > mx"
        "\<forall>j < length ss. studentClass (ss ! j) = cls \<longrightarrow> percentage (ss ! j) \<le> percentage (ss ! k)"
        "\<forall>j < k. studentClass (ss ! j) = cls \<longrightarrow> percentage (ss ! j) < percentage (ss ! k)"
      by blast
    have "\<forall>j < length (s # ss). studentClass ((s # ss) ! j) = cls \<longrightarrow>
            percentage ((s # ss) ! j) \<le> percentage ((s # ss) ! Suc k)"
      using k miss by (auto simp: nth_Cons split: nat.splits)
    moreover have "\<forall>j < Suc k. studentClass ((s # ss) ! j) = cls \<longrightarrow>
            percentage ((s # ss) ! j) < percentage ((s # ss) ! Suc k)"
      using k miss by (auto simp: nth_Cons split: nat.splits)
    ultimately show ?thesis
      using k miss by (intro exI [of _ "Suc k"]) auto
  qed
qed

text \<open>
  What the scan computes. When some record of the class has a percentage above -1, the
  result is the earliest record of the class with the largest percentage; on the class
  members A with 70, B with 85 and C with 85, in this order, it is B. When no record of
  the class has a percentage above -1, the scan keeps the null pointer it started with.
\<close>

lemma findTopper_scan_result:
  "(case findTopper cls students of
      None \<Rightarrow> \<not> (\<exists>s\<in>set students. studentClass s = cls \<and> percentage s > - 1)
    | Some k \<Rightarrow>
        k < length students \<and> studentClass (students ! k) = cls \<and>
        percentage (students ! k) > - 1 \<and>
        (\<forall>j < length students. studentClass (students ! j) = cls \<longrightarrow>
           percentage (students ! j) \<le> percentage (students ! k)) \<and>
        (\<forall>j < k. studentClass (students ! j) = cls \<longrightarrow>
           percentage (students ! j) < percentage (students ! k))) \<and>
   findTopper ''X''
     [fresh_Student\<lparr>name := ''A'', studentClass := ''X'', percentage := 70\<rparr>,
      fresh_Student\<lparr>name := ''B'', studentClass := ''X'', percentage := 85\<rparr>,
      fresh_Student\<lparr>name := ''C'', studentClass := ''X'', percentage := 85\<rparr>] = Some 1"
proof -
  have ex: "findTopper ''X''
     [fresh_Student\<lparr>name := ''A'', studentClass := ''X'', percentage := 70\<rparr>,
      fresh_Student\<lparr>name := ''B'', studentClass := ''X'', percentage := 85\<rparr>,
      fresh_Student\<lparr>name := ''C'', studentClass := ''X'', percentage := 85\<rparr>] = Some 1"
    by (simp add: findTopper_def fresh_Student_def)
  show ?thesis
  proof (cases "\<exists>s\<in>set students. studentClass s = cls \<and> percentage s > - 1")
    case True
    from topper_scan_some [OF True, of 0 None] show ?thesis
      using ex by (auto simp: findTopper_def)
  next
    case False
    then have "findTopper cls students = None"
      unfolding findTopper_def by (intro topper_scan_none) auto
    with False ex show ?thesis by simp
  qed
qed


text \<open>
  C9. Claim: \<^verbatim>\<open>findTopper\<close> returns the record of the class with the largest percentage,
  and none when the class has no records. The scan starts with \<^verbatim>\<open>maxPercentage = -1\<close>
  and compares with \<^verbatim>\<open>>\<close>, so a record whose percentage is -1 or less is never taken.
  Marks are not validated: five marks of -5 give the percentage -5. For the roster with
  this one record in class X, \<^verbatim>\<open>findTopper\<close> finds no topper and prints that there are
  no students in the class, where \<^verbatim>\<open>showStatistics\<close> counts one student in it.
\<close>

theorem findTopper_misses_negative_percentage:
  "derived_consistent
     (fresh_Student\<lparr>name := ''A'', studentClass := ''X'',
        marks := (- 5, - 5, - 5, - 5, - 5), percentage := - 5\<rparr>) \<and>
   findTopper ''X''
     [fresh_Student\<lparr>name := ''A'', studentClass := ''X'',
        marks := (- 5, - 5, - 5, - 5, - 5), percentage := - 5\<rparr>] = None \<and>
   (\<exists>st. showStatistics ''X''
      [fresh_Student\<lparr>name := ''A'', studentClass := ''X'',
         marks := (- 5, - 5, - 5, - 5, - 5), percentage := - 5\<rparr>] = Inr st \<and>
      totalStudents st = 1 \<and> averagePercentage st = - 5)"
  by (simp add: findTopper_def fresh_Student_def derived_consistent_def
      strategy_calculateGrade_def strategy_calculateGPA_def showStatistics_def)

section \<open>Monthly attendance (C10)\<close>

lemma month_key_eq:
  "month_key d = (if length d < 5 then Inl OutOfRange else Inr (take 2 (drop 5 d) @ ''-'' @ take 4 d))"
  by (auto simp: month_key_def substr_def)

lemma month_count_error:
  "(month_count my atts p t = Inl OutOfRange) = (\<exists>a\<in>set atts. length (date a) < 5)"
  by (induction atts arbitrary: p t) (auto simp: month_key_eq)

lemma month_count_cases:
  "month_count my atts p t = Inl OutOfRange \<or> (\<exists>r. month_count my atts p t = Inr r)"
  by (induction atts arbitrary: p t) (auto simp: month_key_eq)

lemma viewMonthly_error:
  "(viewMonthlyAttendance my students = Inl OutOfRange) =
     (\<exists>s\<in>set students. \<exists>a\<in>set (attendanceRecords s). length (date a) < 5)"
proof (induction students)
  case Nil
  show ?case by simp
next
  case (Cons s ss)
  show ?case
    using month_count_cases [of my "attendanceRecords s" 0 0]
      month_count_error [of my "attendanceRecords s" 0 0] Cons.IH
    by (auto split: sum.splits)
qed

lemma viewMonthly_cases:
  "viewMonthlyAttendance my students = Inl OutOfRange \<or> (\<exists>r. viewMonthlyAttendance my students = Inr r)"
proof (induction students)
  case Nil
  show ?case by simp
next
  case (Cons s ss)
  show ?case
    using month_count_cases [of my "attendanceRecords s" 0 0] Cons.IH
    by (auto split: sum.splits)
qed

text \<open>
  C10. The month and the year of an entry are the characters 5 to 6 and 0 to 3 of its
  date. A date of fewer than five characters makes \<^verbatim>\<open>substr(5, 2)\<close> throw; the report
  ends with that exception exactly when some entry of some student has such a date, and
  otherwise produces its rows.
\<close>

theorem monthly_substr_out_of_range:
  "month_key d = (if length d < 5 then Inl OutOfRange
                  else Inr (take 2 (drop 5 d) @ ''-'' @ take 4 d)) \<and>
   (viewMonthlyAttendance monthYear students = Inl OutOfRange) =
     (\<exists>s\<in>set students. \<exists>a\<in>set (attendanceRecords s). length (date a) < 5) \<and>
   (\<exists>rows. viewMonthlyAttendance monthYear students = Inr rows) =
     (\<not> (\<exists>s\<in>set students. \<exists>a\<in>set (attendanceRecords s). length (date a) < 5))"
  using viewMonthly_cases [of monthYear students] viewMonthly_error [of monthYear students]
  by (auto simp: month_key_eq)

theorem monthly_substr_out_of_range_witness:
  "viewMonthlyAttendance ''03-2024''
     [fresh_Student\<lparr>name := ''A'', rollNo := 1, attendanceRecords :=
        [\<lparr>date = ''2024-03-01'', status = ''Present''\<rparr>, \<lparr>date = ''2024'', status = ''Absent''\<rparr>]\<rparr>]
   = Inl OutOfRange \<and>
   viewMonthlyAttendance ''03-2024''
     [fresh_Student\<lparr>name := ''A'', rollNo := 1, attendanceRecords :=
        [\<lparr>date = ''2024-03-01'', status = ''Present''\<rparr>, \<lparr>date = ''2024-'', status = ''Absent''\<rparr>]\<rparr>]
   = Inr [(1, ''A'', 1, 0, 100)]"
proof -
  have "viewMonthlyAttendance ''03-2024''
     [fresh_Student\<lparr>name := ''A'', rollNo := 1, attendanceRecords :=
        [\<lparr>date = ''2024-03-01'', status = ''Present''\<rparr>, \<lparr>date = ''2024-'', status = ''Absent''\<rparr>]\<rparr>]
   = Inr [(1, ''A'', 1, 0, 100)]"
    by (simp add: month_key_def substr_def fresh_Student_def)
  then show ?thesis
    using monthly_substr_out_of_range [of "''2024''" "''03-2024''"
      "[fresh_Student\<lparr>name := ''A'', rollNo := 1, attendanceRecords :=
        [\<lparr>date = ''2024-03-01'', status = ''Present''\<rparr>, \<lparr>date = ''2024'', status = ''Absent''\<rparr>]\<rparr>]"]
    by (simp add: fresh_Student_def)
qed

section \<open>Loading the native store (C6)\<close>

text \<open>
  C6. Claim: the load stops at the first malformed or incomplete record and returns the
  records read in full before it, without a hard failure. The loop tests the stream only
  after the first ten fields of a record. A record whose attendance count cannot be read
  is stored all the same: the file \<^verbatim>\<open>Ann 1 X 20 F 1 2 3 4 5 abc\<close> loads as one record.
  So is a record whose announced entries are missing, with empty entries in their place.
  A negative count ends the load with \<^verbatim>\<open>std::length_error\<close>, and a file that ends after
  the marks with the read of a count that was never assigned.
\<close>

theorem loadFromFile_keeps_malformed_record:
  "loadFromFile get_float_plain (Some ''Ann 1 X 20 F 1 2 3 4 5 abc'')
   = Inr [fresh_Student\<lparr>name := ''Ann'', rollNo := 1, studentClass := ''X'', age := 20,
            gender := ''F'', marks := (1, 2, 3, 4, 5)\<rparr>] \<and>
   loadFromFile get_float_plain (Some ''Ann 1 X 20 F 1 2 3 4 5 2 2024-03-01'')
   = Inr [fresh_Student\<lparr>name := ''Ann'', rollNo := 1, studentClass := ''X'', age := 20,
            gender := ''F'', marks := (1, 2, 3, 4, 5), attendanceRecords :=
              [\<lparr>date = ''2024-03-01'', status = []\<rparr>, \<lparr>date = [], status = []\<rparr>]\<rparr>] \<and>
   loadFromFile get_float_plain (Some ''Ann 1 X 20 F 1 2 3 4 5 -1 0.00'') = Inl LengthError \<and>
   loadFromFile get_float_plain (Some (''Ann 1 X 20 F 1 2 3 4 5'' @ [CHR 0x0A]))
   = Inl IndeterminateRead"
  by (simp add: loadFromFile_def stream_eval text_eval fresh_Student_def numeral_2_eq_2)

section \<open>Saving and loading (C5)\<close>

subsection \<open>Integers and fields read back\<close>

lemma starts_with_space_Cons [simp]: "starts_with_space (c # cs) = isspace c"
  by (simp add: starts_with_space_def)

lemma starts_with_space_Nil [simp]: "\<not> starts_with_space []"
  by (simp add: starts_with_space_def)

lemma isspace_simps [simp]: "isspace CHR '' ''" "isspace CHR 0x0A"
  by (simp_all add: isspace_def)



































subsection \<open>The float texts read back\<close>






















text \<open>
  The round trip is stated for marks that are written in full whichever format the stream
  is in. \<^verbatim>\<open>saveToFile\<close> sets \<^verbatim>\<open>fixed << setprecision(2)\<close> for the gpa of the first
  record and never resets it, so the same mark is written with six significant digits in
  the first record and with two decimals in every later one.
\<close>

lemma saveToFile_format_stays_fixed:
  "saveToFile write_float
     [fresh_Student\<lparr>name := ''Ann'', rollNo := 1, studentClass := ''X'', age := 20,
        gender := ''F'', marks := (85125 / 1000, 0, 0, 0, 0)\<rparr>,
      fresh_Student\<lparr>name := ''Bob'', rollNo := 2, studentClass := ''X'', age := 20,
        gender := ''M'', marks := (85125 / 1000, 0, 0, 0, 0)\<rparr>]
   = ''Ann 1 X 20 F 85.125 0 0 0 0 0 0.00'' @ [CHR 0x0A] @
     ''Bob 2 X 20 M 85.12 0.00 0.00 0.00 0.00 0 0.00'' @ [CHR 0x0A]"
  by (simp add: saveToFile_def save_record_def marks_list_def put_int_def float_eval
      fresh_Student_def)

end
